theory Spec2Isabelle
  imports Complex_Main "HOL-Library.Char_ord" "HOL-Library.List_Lexorder"
begin

section \<open>BabyAgent video pipeline (vision.py)\<close>

text \<open>
  A shallow embedding of \<^verbatim>\<open>src/BabyAgent/vision.py\<close>.

  Conventions of the model:
  \<^item> Python \<^verbatim>\<open>float\<close> values (frame rates, timestamps) are exact rationals; NaN and
    infinities are outside the model.
  \<^item> Python \<^verbatim>\<open>str\<close> and \<^verbatim>\<open>bytes\<close> are \<open>string\<close>; characters are bytes, and case
    folding is the ASCII one.
  \<^item> The filesystem is an association list from path strings to nodes. Two different
    strings are two different files (no normalisation, no symbolic links), and
    filesystem calls succeed unless the model says otherwise.
  \<^item> Every external collaborator (URL parser, downloaders, decoders, the transcription
    and inference services) is a field of the record \<open>env\<close>; an exception it raises
    is the left injection of a sum.
  \<^item> \<^verbatim>\<open>print\<close> appends one line to \<open>stdout\<close>.
\<close>

subsection \<open>Paths and constants\<close>

definition FRAME_FOLDER :: string where
  "FRAME_FOLDER = ''../data/crying_baby/frames''"

definition INPUT_VIDEO_PATH :: string where
  "INPUT_VIDEO_PATH = ''../data/crying_baby/yongzi.mp4''"

definition OUTPUT_AUDIO_PATH :: string where
  "OUTPUT_AUDIO_PATH = ''../data/crying_baby/video_audio.wav''"

definition BABY_CRY_CUES :: "string list" where
  "BABY_CRY_CUES = [''NEH'', ''OWH'', ''HEH'', ''EAIR'', ''EH'']"

definition TRANSCRIPTION_PROMPT :: string where
  "TRANSCRIPTION_PROMPT =
     ''This audio features a baby. When you hear Dunstan baby language sounds like '' @
     ''NEH, OWH, HEH, EAIR, or EH, transcribe them verbatim in uppercase (e.g., NEH).''"

text \<open>The text of \<^verbatim>\<open>PROMPT_VISION\<close> is passed through unchanged; only its identity matters.\<close>

definition PROMPT_VISION :: string where
  "PROMPT_VISION = ''You are an expert in infant development and behavioral analysis''"

text \<open>The character U+2026 of the source's messages, as its UTF-8 bytes.\<close>

definition ellipsis :: string where
  "ellipsis = [char_of (226::nat), char_of (128::nat), char_of (166::nat)]"

subsection \<open>Exceptions\<close>

text \<open>
  The exception classes the source tells apart (\<^verbatim>\<open>except ValueError\<close>,
  \<^verbatim>\<open>except OSError\<close>, \<^verbatim>\<open>except AttributeError\<close>, \<^verbatim>\<open>except Exception\<close>), each with
  its message.
\<close>

datatype error =
    ValueError string
  | RuntimeError string
  | OSError string
  | AttributeError string
  | IndexError string
  | ServiceError string

fun str_of_error :: "error \<Rightarrow> string" where
  "str_of_error (ValueError m) = m"
| "str_of_error (RuntimeError m) = m"
| "str_of_error (OSError m) = m"
| "str_of_error (AttributeError m) = m"
| "str_of_error (IndexError m) = m"
| "str_of_error (ServiceError m) = m"

subsection \<open>Numbers and formatting\<close>

text \<open>\<^verbatim>\<open>int(x)\<close> on a float truncates toward zero.\<close>

definition py_int :: "rat \<Rightarrow> int" where
  "py_int x = (if x < 0 then - \<lfloor>- x\<rfloor> else \<lfloor>x\<rfloor>)"

definition digit_char :: "nat \<Rightarrow> char" where
  "digit_char d = char_of (48 + d)"

fun dec_digits :: "nat \<Rightarrow> nat \<Rightarrow> string" where
  "dec_digits 0 n = []"
| "dec_digits (Suc k) n =
     (if n < 10 then [digit_char n] else dec_digits k (n div 10) @ [digit_char (n mod 10)])"

text \<open>\<^verbatim>\<open>str(n)\<close> for a natural number: \<open>n\<close> has at most \<open>n + 1\<close> digits.\<close>

definition str_nat :: "nat \<Rightarrow> string" where
  "str_nat n = dec_digits (Suc n) n"

definition zero_pad :: "nat \<Rightarrow> string \<Rightarrow> string" where
  "zero_pad w s = replicate (w - length s) (CHR ''0'') @ s"

text \<open>\<^verbatim>\<open>f"{n:07d}"\<close>: the sign counts toward the width of seven.\<close>

definition fmt_07d :: "int \<Rightarrow> string" where
  "fmt_07d n = (if n < 0 then CHR ''-'' # zero_pad 6 (str_nat (nat (- n)))
                else zero_pad 7 (str_nat (nat n)))"

text \<open>The \<open>k\<close> low-order decimal digits of \<open>n\<close>, most significant first.\<close>

fun digits :: "nat \<Rightarrow> nat \<Rightarrow> string" where
  "digits 0 n = []"
| "digits (Suc k) n = digits k (n div 10) @ [digit_char (n mod 10)]"

subsection \<open>Strings\<close>

definition is_upper :: "char \<Rightarrow> bool" where
  "is_upper c = (CHR ''A'' \<le> c \<and> c \<le> CHR ''Z'')"

definition is_lower :: "char \<Rightarrow> bool" where
  "is_lower c = (CHR ''a'' \<le> c \<and> c \<le> CHR ''z'')"

definition is_digit :: "char \<Rightarrow> bool" where
  "is_digit c = (CHR ''0'' \<le> c \<and> c \<le> CHR ''9'')"

definition lower_char :: "char \<Rightarrow> char" where
  "lower_char c = (if is_upper c then char_of (of_char c + (32::nat)) else c)"

definition upper_char :: "char \<Rightarrow> char" where
  "upper_char c = (if is_lower c then char_of (of_char c - (32::nat)) else c)"

text \<open>\<^verbatim>\<open>str.lower()\<close> and \<^verbatim>\<open>str.upper()\<close>.\<close>

definition lower :: "string \<Rightarrow> string" where
  "lower s = map lower_char s"

definition upper :: "string \<Rightarrow> string" where
  "upper s = map upper_char s"

text \<open>\<^verbatim>\<open>sub in s\<close> for strings: \<open>sub\<close> occurs in \<open>s\<close> as a contiguous block.\<close>

fun contains :: "string \<Rightarrow> string \<Rightarrow> bool" where
  "contains [] sub = (sub = [])"
| "contains (c # cs) sub = (take (length sub) (c # cs) = sub \<or> contains cs sub)"

text \<open>\<^verbatim>\<open>", ".join(xs)\<close>.\<close>

fun join :: "string \<Rightarrow> string list \<Rightarrow> string" where
  "join sep [] = []"
| "join sep [x] = x"
| "join sep (x # y # ys) = x @ sep @ join sep (y # ys)"

text \<open>\<^verbatim>\<open>s.endswith(suf)\<close>, \<^verbatim>\<open>s.strip()\<close>, \<^verbatim>\<open>s.rstrip("/")\<close>, \<^verbatim>\<open>s.split(";")[0]\<close>.\<close>

definition endswith :: "string \<Rightarrow> string \<Rightarrow> bool" where
  "endswith s suf = (length suf \<le> length s \<and> drop (length s - length suf) s = suf)"

definition is_space :: "char \<Rightarrow> bool" where
  "is_space c = (c = CHR '' '' \<or> (char_of (9::nat) \<le> c \<and> c \<le> char_of (13::nat)))"

definition strip :: "string \<Rightarrow> string" where
  "strip s = rev (dropWhile is_space (rev (dropWhile is_space s)))"

definition rstrip_slash :: "string \<Rightarrow> string" where
  "rstrip_slash s = rev (dropWhile (\<lambda>c. c = CHR ''/'') (rev s))"

definition before_semicolon :: "string \<Rightarrow> string" where
  "before_semicolon s = takeWhile (\<lambda>c. c \<noteq> CHR '';'') s"

text \<open>\<^verbatim>\<open>os.path.basename\<close>: what follows the last separator.\<close>

definition basename :: "string \<Rightarrow> string" where
  "basename p = rev (takeWhile (\<lambda>c. c \<noteq> CHR ''/'') (rev p))"

text \<open>
  \<^verbatim>\<open>os.path.splitext\<close>: the extension starts at the last dot of the last component,
  unless only dots precede it there.
\<close>

definition splitext :: "string \<Rightarrow> string \<times> string" where
  "splitext p =
     (let base = basename p;
          ext = rev (takeWhile (\<lambda>c. c \<noteq> CHR ''.'') (rev base));
          stem = take (length base - length ext - 1) base
      in if CHR ''.'' \<in> set base \<and> (\<exists>c \<in> set stem. c \<noteq> CHR ''.'')
         then (take (length p - length ext - 1) p, CHR ''.'' # ext)
         else (p, []))"

subsection \<open>Cue detection\<close>

text \<open>
  The regular expression class \<^verbatim>\<open>\w\<close>: letters, digits and the underscore. The text is
  ASCII; letters beyond it are outside the model.
\<close>

definition is_word_char :: "char \<Rightarrow> bool" where
  "is_word_char c = (is_upper c \<or> is_lower c \<or> is_digit c \<or> c = CHR ''_'')"

text \<open>
  \<^verbatim>\<open>\b\<close> at a position: the character before it (\<open>prev\<close> says whether it is a word
  character; at the start of the text there is none) and the character after it differ in
  being word characters.
\<close>

definition boundary :: "bool \<Rightarrow> string \<Rightarrow> bool" where
  "boundary prev rest = (prev \<noteq> (rest \<noteq> [] \<and> is_word_char (hd rest)))"

text \<open>
  The pattern \<^verbatim>\<open>\bCUE\b\<close> with \<^verbatim>\<open>re.IGNORECASE\<close> matched at the start of \<open>s\<close>,
  where \<open>prev\<close> describes the character before \<open>s\<close>.
\<close>

definition match_here :: "string \<Rightarrow> bool \<Rightarrow> string \<Rightarrow> bool" where
  "match_here cue prev s =
     (boundary prev s
      \<and> length cue \<le> length s
      \<and> lower (take (length cue) s) = lower cue
      \<and> boundary (if cue = [] then prev else is_word_char (s ! (length cue - 1)))
           (drop (length cue) s))"

text \<open>\<^verbatim>\<open>re.search\<close>: a match at some position of the text, scanned left to right.\<close>

fun search_from :: "string \<Rightarrow> bool \<Rightarrow> string \<Rightarrow> bool" where
  "search_from cue prev [] = match_here cue prev []"
| "search_from cue prev (c # cs) =
     (match_here cue prev (c # cs) \<or> search_from cue (is_word_char c) cs)"

definition re_search_word :: "string \<Rightarrow> string \<Rightarrow> bool" where
  "re_search_word cue transcript = search_from cue False transcript"

definition detect_baby_sounds :: "string \<Rightarrow> string list" where
  "detect_baby_sounds transcript = filter (\<lambda>cue. re_search_word cue transcript) BABY_CRY_CUES"

text \<open>
  The wording of the specification, for comparison: the text is cut into words (maximal
  runs of word characters), and a token occurs as a whole word when one of the words
  equals it up to case.
\<close>

fun words_from :: "string \<Rightarrow> string \<Rightarrow> string list" where
  "words_from cur [] = (if cur = [] then [] else [cur])"
| "words_from cur (c # cs) =
     (if is_word_char c then words_from (cur @ [c]) cs
      else (if cur = [] then [] else [cur]) @ words_from [] cs)"

definition words_of :: "string \<Rightarrow> string list" where
  "words_of s = words_from [] s"

definition occurs_as_word :: "string \<Rightarrow> string \<Rightarrow> bool" where
  "occurs_as_word cue transcript = (lower cue \<in> set (map lower (words_of transcript)))"

subsection \<open>Source classification\<close>

text \<open>
  \<^verbatim>\<open>urllib.parse.urlparse\<close> is a collaborator: it either raises \<^verbatim>\<open>ValueError\<close> or
  returns the components of the string.
\<close>

record parsed_url =
  scheme :: string
  netloc :: string
  url_path :: string

text \<open>\<^verbatim>\<open>is_url\<close> catches \<^verbatim>\<open>ValueError\<close> only; any other exception goes on to the caller.\<close>

definition is_url :: "(string \<Rightarrow> error + parsed_url) \<Rightarrow> string \<Rightarrow> error + bool" where
  "is_url urlparse source =
     (case urlparse source of
        Inl (ValueError m) \<Rightarrow> Inr False
      | Inl e \<Rightarrow> Inl e
      | Inr parsed \<Rightarrow> Inr (scheme parsed \<in> {''http'', ''https''}))"

definition is_youtube_url :: "(string \<Rightarrow> error + parsed_url) \<Rightarrow> string \<Rightarrow> error + bool" where
  "is_youtube_url urlparse source =
     (case urlparse source of
        Inl e \<Rightarrow> Inl e
      | Inr parsed \<Rightarrow>
          (let host = lower (netloc parsed)
           in Inr (contains host ''youtube.com'' \<or> contains host ''youtu.be'')))"

text \<open>The three kinds of source of the specification's data model.\<close>

datatype video_source = Local string | RemoteFile string | PlatformHosted string

subsection \<open>Filesystem\<close>

datatype node = Dir | File string

type_synonym filesystem = "(string \<times> node) list"

definition fs_lookup :: "filesystem \<Rightarrow> string \<Rightarrow> node option" where
  "fs_lookup fs p = map_of fs p"

definition path_exists :: "filesystem \<Rightarrow> string \<Rightarrow> bool" where
  "path_exists fs p = (fs_lookup fs p \<noteq> None)"

definition isdir :: "filesystem \<Rightarrow> string \<Rightarrow> bool" where
  "isdir fs p = (fs_lookup fs p = Some Dir)"

definition isfile :: "filesystem \<Rightarrow> string \<Rightarrow> bool" where
  "isfile fs p = (case fs_lookup fs p of Some (File c) \<Rightarrow> True | _ \<Rightarrow> False)"

text \<open>\<open>inside d p\<close>: the path \<open>p\<close> lies strictly below the directory \<open>d\<close>.\<close>

definition inside :: "string \<Rightarrow> string \<Rightarrow> bool" where
  "inside d p = (take (Suc (length d)) p = d @ ''/'')"

text \<open>\<^verbatim>\<open>os.path.join(a, b)\<close> for two components.\<close>

definition path_join :: "string \<Rightarrow> string \<Rightarrow> string" where
  "path_join a b =
     (if b \<noteq> [] \<and> hd b = CHR ''/'' then b
      else if a = [] \<or> last a = CHR ''/'' then a @ b
      else a @ ''/'' @ b)"

text \<open>\<^verbatim>\<open>os.unlink\<close> / \<^verbatim>\<open>os.remove\<close> of a file that exists.\<close>

definition unlink :: "filesystem \<Rightarrow> string \<Rightarrow> filesystem" where
  "unlink fs p = filter (\<lambda>(q, n). q \<noteq> p) fs"

text \<open>\<^verbatim>\<open>shutil.rmtree(d, ignore_errors=True)\<close>: the directory and everything below it.\<close>

definition rmtree :: "filesystem \<Rightarrow> string \<Rightarrow> filesystem" where
  "rmtree fs d = filter (\<lambda>(q, n). q \<noteq> d \<and> \<not> inside d q) fs"

text \<open>Creating or overwriting a file.\<close>

definition write_file :: "filesystem \<Rightarrow> string \<Rightarrow> string \<Rightarrow> filesystem" where
  "write_file fs p c = (p, File c) # unlink fs p"

definition mkdir_if_absent :: "string \<Rightarrow> filesystem \<Rightarrow> filesystem" where
  "mkdir_if_absent p fs = (if path_exists fs p then fs else (p, Dir) # fs)"

text \<open>The proper ancestors of a path: its prefixes that end just before a separator.\<close>

definition ancestors :: "string \<Rightarrow> string list" where
  "ancestors p = [take i p. i \<leftarrow> [1..<length p], p ! i = CHR ''/'']"

text \<open>\<^verbatim>\<open>os.makedirs(p, exist_ok=True)\<close>: missing intermediate directories, then the leaf.\<close>

definition makedirs :: "filesystem \<Rightarrow> string \<Rightarrow> filesystem" where
  "makedirs fs p = fold mkdir_if_absent (ancestors p @ [p]) fs"

text \<open>\<^verbatim>\<open>os.listdir(d)\<close>: the names of the direct children, in the order of the store.\<close>

definition listdir :: "filesystem \<Rightarrow> string \<Rightarrow> string list" where
  "listdir fs d =
     [drop (Suc (length d)) q. (q, n) \<leftarrow> fs, inside d q,
        CHR ''/'' \<notin> set (drop (Suc (length d)) q)]"

subsection \<open>External collaborators\<close>

text \<open>\<^verbatim>\<open>VideoFileClip\<close>: the audio track of an opened clip, if it has one.\<close>

record clip =
  clip_audio :: "string option"

text \<open>
  \<^verbatim>\<open>cv2.VideoCapture\<close>: a stream with a reported frame rate, its frames and a read
  position. Seeking by time is exact: \<^verbatim>\<open>CAP_PROP_POS_MSEC\<close> moves the position to the
  frame shown at that time.
\<close>

record capture =
  cap_fps :: rat
  cap_frames :: "string list"
  cap_pos :: nat

text \<open>The options dictionary handed to the platform extractor.\<close>

record ydl_opts =
  outtmpl :: string
  quiet :: bool
  noplaylist :: bool
  format :: string
  merge_output_format :: string
  cookiefile :: "string option"
  cookiesfrombrowser :: "(string \<times> string option) option"

text \<open>
  What a run of the extractor leaves behind: the files it wrote below the temporary
  directory (name and content), and either an exception or the extension that
  \<^verbatim>\<open>prepare_filename\<close> puts into the output template.
\<close>

record ydl_outcome =
  ydl_written :: "(string \<times> string) list"
  ydl_result :: "error + string"

text \<open>
  \<^verbatim>\<open>urlopen\<close> either raises, or answers with a \<^verbatim>\<open>Content-Type\<close> header (if any) and a
  body; copying the body may raise after part of it has been written.
\<close>

datatype http_outcome =
    HttpFailed error
  | HttpResponse "string option" string "error option"

text \<open>The two request shapes of the inference service.\<close>

datatype input_block = InputText string | InputImage string

datatype chat_block = ChatText string | ChatImageUrl string

datatype llm_request =
    ResponsesRequest string "input_block list" nat
  | ChatRequest string "chat_block list" nat

record content_entry =
  entry_type :: "string option"
  entry_text :: "string option"

record output_block =
  block_type :: "string option"
  block_content :: "content_entry list option"

record response =
  output_text :: "string option"
  resp_output :: "output_block list option"
  response_repr :: string

datatype model = Gpt4oTranscribe | Whisper1

record env =
  urlparse :: "string \<Rightarrow> error + parsed_url"
  guess_extension :: "string \<Rightarrow> string option"
  expanduser :: "string \<Rightarrow> string"
  ytdlp_available :: bool
  mkdtemp :: "string \<Rightarrow> string"
  ydl_download :: "string \<Rightarrow> ydl_opts \<Rightarrow> ydl_outcome"
  urlopen :: "string \<Rightarrow> http_outcome"
  video_decode :: "string \<Rightarrow> capture option"
  jpg_encode :: "string \<Rightarrow> string"
  clip_decode :: "string \<Rightarrow> error + clip"
  wav_encode :: "string \<Rightarrow> error + string"
  transcriptions_create :: "model list \<Rightarrow> model \<Rightarrow> string \<Rightarrow> string \<Rightarrow> error + string"
  b64encode :: "string \<Rightarrow> string"
  has_responses :: bool
  responses_create :: "llm_request \<Rightarrow> error + response"
  chat_create :: "llm_request \<Rightarrow> error + string list"

text \<open>
  The transcription service sees the models of the calls made before (\<open>asr_calls\<close>), so
  its answer may depend on the history.
\<close>

subsection \<open>The world: filesystem, output channel, service call logs\<close>

record world =
  fs :: filesystem
  stdout :: "string list"
  asr_calls :: "model list"
  llm_calls :: "llm_request list"

definition print :: "string \<Rightarrow> world \<Rightarrow> world" where
  "print line w = w\<lparr>stdout := stdout w @ [line]\<rparr>"

subsection \<open>Utilities\<close>

text \<open>
  \<^verbatim>\<open>ensure_clean_dir\<close>: create the directory, then delete each child, a file by
  \<^verbatim>\<open>os.unlink\<close> and a directory by \<^verbatim>\<open>shutil.rmtree\<close>.
\<close>

definition clean_child :: "string \<Rightarrow> string \<Rightarrow> filesystem \<Rightarrow> filesystem" where
  "clean_child path fn f =
     (let fp = path_join path fn in
      if isfile f fp then unlink f fp
      else if isdir f fp then rmtree f fp
      else f)"

definition ensure_clean_dir :: "string \<Rightarrow> world \<Rightarrow> world" where
  "ensure_clean_dir path w =
     (let f = makedirs (fs w) path in
      w\<lparr>fs := fold (clean_child path) (listdir f path) f\<rparr>)"

subsection \<open>Frame sampler\<close>

definition cap_set_pos_msec :: "capture \<Rightarrow> rat \<Rightarrow> capture" where
  "cap_set_pos_msec cap ms = cap\<lparr>cap_pos := nat (py_int (ms * cap_fps cap / 1000))\<rparr>"

definition safe_start :: "rat \<Rightarrow> rat" where
  "safe_start start_sec = max 0 (if start_sec = 0 then 0 else start_sec)"

definition safe_end :: "rat \<Rightarrow> rat option \<Rightarrow> rat option" where
  "safe_end start_sec end_sec =
     (case end_sec of
        None \<Rightarrow> None
      | Some e \<Rightarrow> if e \<le> safe_start start_sec then None else Some e)"

definition window_warning :: "rat \<Rightarrow> rat option \<Rightarrow> bool" where
  "window_warning start_sec end_sec =
     (case end_sec of None \<Rightarrow> False | Some e \<Rightarrow> e \<le> safe_start start_sec)"

definition fps_or_default :: "rat \<Rightarrow> rat" where
  "fps_or_default raw = (if raw = 0 then 30 else raw)"

definition frame_skip :: "rat \<Rightarrow> rat \<Rightarrow> int" where
  "frame_skip fps interval_sec = max 1 (py_int (fps * interval_sec))"

definition start_frame_idx :: "rat \<Rightarrow> rat \<Rightarrow> rat \<Rightarrow> int" where
  "start_frame_idx pos_frames sstart fps =
     (if pos_frames > 0 then py_int pos_frames else py_int (sstart * fps))"

text \<open>The name under which \<^verbatim>\<open>extract_frames\<close> saves the frame with a given index.\<close>

definition frame_name :: "int \<Rightarrow> string" where
  "frame_name current_frame = ''frame_'' @ fmt_07d current_frame @ ''.jpg''"

definition frame_path :: "int \<Rightarrow> string" where
  "frame_path current_frame =
     path_join FRAME_FOLDER (frame_name current_frame)"

text \<open>
  The \<^verbatim>\<open>while True\<close> loop. The list is what the stream still holds: \<^verbatim>\<open>cap.read()\<close>
  takes its head and fails on the empty list. The result is the saved frames, each with
  its absolute index, in the order they were written.
\<close>

fun sample_loop ::
  "rat \<Rightarrow> rat option \<Rightarrow> int \<Rightarrow> int \<Rightarrow> int \<Rightarrow> string list \<Rightarrow> (int \<times> string) list" where
  "sample_loop fps send skip start idx [] = []"
| "sample_loop fps send skip start idx (frame # rest) =
     (let current_frame = start + idx;
          current_time = (if fps \<noteq> 0 then of_int current_frame / fps else 0)
      in if (case send of None \<Rightarrow> False | Some e \<Rightarrow> current_time \<ge> e) then []
         else (if idx mod skip = 0 then [(current_frame, frame)] else [])
              @ sample_loop fps send skip start (idx + 1) rest)"

text \<open>The frames \<^verbatim>\<open>extract_frames\<close> saves from an opened stream.\<close>

definition sampled_frames ::
  "capture \<Rightarrow> rat \<Rightarrow> rat \<Rightarrow> rat option \<Rightarrow> (int \<times> string) list" where
  "sampled_frames cap0 interval_sec start_sec end_sec =
     (let sstart = safe_start start_sec;
          send = safe_end start_sec end_sec;
          fps = fps_or_default (cap_fps cap0);
          skip = frame_skip fps interval_sec;
          cap = (if sstart \<noteq> 0 then cap_set_pos_msec cap0 (sstart * 1000) else cap0);
          pos_frames = of_nat (cap_pos cap);
          start = start_frame_idx pos_frames sstart fps
      in sample_loop fps send skip start 0 (drop (cap_pos cap) (cap_frames cap)))"


text \<open>\<^verbatim>\<open>cv2.VideoCapture(video_path)\<close>: the file must exist and decode.\<close>

definition VideoCapture :: "env \<Rightarrow> filesystem \<Rightarrow> string \<Rightarrow> capture option" where
  "VideoCapture env f video_path =
     (case fs_lookup f video_path of
        Some (File bytes) \<Rightarrow> video_decode env bytes
      | _ \<Rightarrow> None)"

text \<open>One saved frame: \<^verbatim>\<open>cv2.imwrite\<close>, then the \<^verbatim>\<open>Saved\<close> line.\<close>

definition save_frame :: "env \<Rightarrow> int \<times> string \<Rightarrow> world \<Rightarrow> world" where
  "save_frame env saved w =
     (let out_path = frame_path (fst saved)
      in print (''Saved '' @ out_path)
           (w\<lparr>fs := write_file (fs w) out_path (jpg_encode env (snd saved))\<rparr>))"

definition extract_frames ::
  "env \<Rightarrow> string \<Rightarrow> rat \<Rightarrow> rat \<Rightarrow> rat option \<Rightarrow> world \<Rightarrow> world" where
  "extract_frames env video_path interval_sec start_sec end_sec w =
     (let w1 = ensure_clean_dir FRAME_FOLDER w;
          w2 = (if window_warning start_sec end_sec
                then print ''End timestamp must be greater than start; processing full video instead.'' w1
                else w1)
      in case VideoCapture env (fs w2) video_path of
           None \<Rightarrow> print ''Error opening video file'' w2
         | Some cap \<Rightarrow>
             fold (save_frame env) (sampled_frames cap interval_sec start_sec end_sec) w2)"

subsection \<open>Video acquisition\<close>

definition infer_filename_from_url :: "env \<Rightarrow> string \<Rightarrow> string option \<Rightarrow> error + string" where
  "infer_filename_from_url env url content_type =
     (case urlparse env url of
        Inl e \<Rightarrow> Inl e
      | Inr parsed \<Rightarrow>
          (let b = basename (rstrip_slash (url_path parsed));
               basename' = (if b = [] then ''remote_video'' else b);
               name = fst (splitext basename');
               ext = snd (splitext basename');
               guessed = (case content_type of
                            None \<Rightarrow> None
                          | Some ct \<Rightarrow> if ct = [] then None
                                       else guess_extension env (strip (before_semicolon ct)));
               ext' = (if ext \<noteq> [] then ext
                       else case guessed of
                              None \<Rightarrow> ''.mp4''
                            | Some g \<Rightarrow> if g = [] then ''.mp4'' else g)
           in Inr ((if name = [] then ''remote_video'' else name) @ ext')))"

text \<open>\<^verbatim>\<open>tempfile.mkdtemp\<close>: the collaborator chooses the name, the directory is created.\<close>

definition mkdtemp_in :: "env \<Rightarrow> string \<Rightarrow> world \<Rightarrow> string \<times> world" where
  "mkdtemp_in env prefix w =
     (let temp_dir = mkdtemp env prefix
      in (temp_dir, w\<lparr>fs := mkdir_if_absent temp_dir (fs w)\<rparr>))"

definition write_all :: "string \<Rightarrow> (string \<times> string) list \<Rightarrow> filesystem \<Rightarrow> filesystem" where
  "write_all dir files f = fold (\<lambda>(name, bytes) g. write_file g (path_join dir name) bytes) files f"

definition download_youtube_video ::
  "env \<Rightarrow> string \<Rightarrow> string option \<Rightarrow> (string \<times> string option) option \<Rightarrow> world
   \<Rightarrow> (error + string \<times> string) \<times> world" where
  "download_youtube_video env url cookie_file cookies_from_browser w =
     (if \<not> ytdlp_available env
      then (Inl (RuntimeError
              ''Downloading YouTube URLs requires the yt_dlp package. Install it via `pip install yt_dlp`.''),
            w)
      else
        let (temp_dir, w1) = mkdtemp_in env ''babyagent_youtube_'' w;
            opts = \<lparr>outtmpl = path_join temp_dir ''youtube.%(ext)s'',
                    quiet = True,
                    noplaylist = True,
                    format = ''bestvideo+bestaudio/best'',
                    merge_output_format = ''mp4'',
                    cookiefile = (case cookie_file of
                                    None \<Rightarrow> None
                                  | Some c \<Rightarrow> if c = [] then None else Some (expanduser env c)),
                    cookiesfrombrowser = cookies_from_browser\<rparr>;
            outcome = ydl_download env url opts;
            w2 = w1\<lparr>fs := write_all temp_dir (ydl_written outcome) (fs w1)\<rparr>
        in case ydl_result outcome of
             Inl e \<Rightarrow> (Inl e, w2\<lparr>fs := rmtree (fs w2) temp_dir\<rparr>)
           | Inr ext \<Rightarrow>
               (let local_path = path_join temp_dir (''youtube.'' @ ext);
                    merged_path = fst (splitext local_path) @ ''.mp4''
                in (Inr (if isfile (fs w2) merged_path then merged_path else local_path, temp_dir),
                    w2)))"

definition download_generic_video ::
  "env \<Rightarrow> string \<Rightarrow> world \<Rightarrow> (error + string \<times> string) \<times> world" where
  "download_generic_video env url w =
     (let (temp_dir, w1) = mkdtemp_in env ''babyagent_remote_'' w
      in case urlopen env url of
           HttpFailed e \<Rightarrow> (Inl e, w1\<lparr>fs := rmtree (fs w1) temp_dir\<rparr>)
         | HttpResponse content_type body copy_error \<Rightarrow>
             (case infer_filename_from_url env url content_type of
                Inl e \<Rightarrow> (Inl e, w1\<lparr>fs := rmtree (fs w1) temp_dir\<rparr>)
              | Inr filename \<Rightarrow>
                  (let local_path = path_join temp_dir filename;
                       w2 = w1\<lparr>fs := write_file (fs w1) local_path body\<rparr>
                   in case copy_error of
                        Some e \<Rightarrow> (Inl e, w2\<lparr>fs := rmtree (fs w2) temp_dir\<rparr>)
                      | None \<Rightarrow> (Inr (local_path, temp_dir), w2))))"

definition prepare_video_input ::
  "env \<Rightarrow> string \<Rightarrow> string option \<Rightarrow> (string \<times> string option) option \<Rightarrow> world
   \<Rightarrow> (error + string \<times> string option) \<times> world" where
  "prepare_video_input env video_source cookie_file cookies_from_browser w =
     (case is_url (urlparse env) video_source of
        Inl e \<Rightarrow> (Inl e, w)
      | Inr False \<Rightarrow> (Inr (video_source, None), w)
      | Inr True \<Rightarrow>
          (case is_youtube_url (urlparse env) video_source of
             Inl e \<Rightarrow> (Inl e, w)
           | Inr True \<Rightarrow>
               (case download_youtube_video env video_source cookie_file cookies_from_browser
                       (print (''Downloading YouTube video from '' @ video_source @ ellipsis) w) of
                  (Inl e, w1) \<Rightarrow> (Inl e, w1)
                | (Inr (local_path, temp_dir), w1) \<Rightarrow> (Inr (local_path, Some temp_dir), w1))
           | Inr False \<Rightarrow>
               (case download_generic_video env video_source
                       (print (''Downloading remote video from '' @ video_source @ ellipsis) w) of
                  (Inl e, w1) \<Rightarrow> (Inl e, w1)
                | (Inr (local_path, temp_dir), w1) \<Rightarrow> (Inr (local_path, Some temp_dir), w1))))"

text \<open>
  The classification that \<^verbatim>\<open>prepare_video_input\<close> dispatches on, as a value of the
  data model.
\<close>

definition classify :: "env \<Rightarrow> string \<Rightarrow> error + video_source" where
  "classify env video_source =
     (case is_url (urlparse env) video_source of
        Inl e \<Rightarrow> Inl e
      | Inr False \<Rightarrow> Inr (Local video_source)
      | Inr True \<Rightarrow>
          (case is_youtube_url (urlparse env) video_source of
             Inl e \<Rightarrow> Inl e
           | Inr True \<Rightarrow> Inr (PlatformHosted video_source)
           | Inr False \<Rightarrow> Inr (RemoteFile video_source)))"

text \<open>
  \<^verbatim>\<open>cleanup_paths\<close>: an absent or empty entry is skipped, a directory is removed with
  its content, any other existing path is removed as a file. Removals succeed, so the
  branch that reports a failed \<^verbatim>\<open>os.remove\<close> is never taken.
\<close>

definition cleanup_path :: "string option \<Rightarrow> filesystem \<Rightarrow> filesystem" where
  "cleanup_path path f =
     (case path of
        None \<Rightarrow> f
      | Some p \<Rightarrow>
          if p = [] then f
          else if isdir f p then rmtree f p
          else if path_exists f p then unlink f p
          else f)"

definition cleanup_paths :: "string option list \<Rightarrow> world \<Rightarrow> world" where
  "cleanup_paths paths w = w\<lparr>fs := fold cleanup_path paths (fs w)\<rparr>"

subsection \<open>Audio transcript extractor\<close>

text \<open>
  One \<^verbatim>\<open>with open(audio_path, "rb")\<close> block: opening a missing file raises; otherwise
  the service is called with the model, and the call is logged.
\<close>

definition transcription_attempt ::
  "env \<Rightarrow> model \<Rightarrow> string \<Rightarrow> world \<Rightarrow> (error + string) \<times> world" where
  "transcription_attempt env m audio_path w =
     (case fs_lookup (fs w) audio_path of
        Some (File af) \<Rightarrow>
          (transcriptions_create env (asr_calls w) m af TRANSCRIPTION_PROMPT,
           w\<lparr>asr_calls := asr_calls w @ [m]\<rparr>)
      | _ \<Rightarrow> (Inl (OSError (''No such file: '' @ audio_path)), w))"

definition transcribe_audio :: "env \<Rightarrow> string \<Rightarrow> world \<Rightarrow> (error + string) \<times> world" where
  "transcribe_audio env audio_path w =
     (case transcription_attempt env Gpt4oTranscribe audio_path w of
        (Inr text, w1) \<Rightarrow> (Inr text, w1)
      | (Inl e, w1) \<Rightarrow>
          transcription_attempt env Whisper1 audio_path
            (print (''gpt-4o-transcribe failed ('' @ str_of_error e
                      @ ''); falling back to whisper-1'' @ ellipsis) w1))"

text \<open>\<^verbatim>\<open>VideoFileClip(video_path)\<close>: the file must exist and decode.\<close>

definition VideoFileClip :: "env \<Rightarrow> filesystem \<Rightarrow> string \<Rightarrow> error + clip" where
  "VideoFileClip env f video_path =
     (case fs_lookup f video_path of
        Some (File bytes) \<Rightarrow> clip_decode env bytes
      | _ \<Rightarrow> Inl (OSError (''No such file: '' @ video_path)))"

definition NO_AUDIO :: string where
  "NO_AUDIO = ''There is no audio for this video.''"

definition extract_audio_and_transcribe ::
  "env \<Rightarrow> string \<Rightarrow> world \<Rightarrow> (error + string \<times> string list) \<times> world" where
  "extract_audio_and_transcribe env video_path w =
     (let audio_path = OUTPUT_AUDIO_PATH
      in case VideoFileClip env (fs w) video_path of
           Inl e \<Rightarrow> (Inl e, w)
         | Inr clip \<Rightarrow>
             (case clip_audio clip of
                None \<Rightarrow> (Inr (NO_AUDIO, []), print NO_AUDIO w)
              | Some track \<Rightarrow>
                  (case wav_encode env track of
                     Inl e \<Rightarrow> (Inl e, w)
                   | Inr wav \<Rightarrow>
                       (case transcribe_audio env audio_path
                               (w\<lparr>fs := write_file (fs w) audio_path wav\<rparr>) of
                          (Inl e, w1) \<Rightarrow> (Inl e, w1)
                        | (Inr transcript, w1) \<Rightarrow>
                            (let baby_cues = detect_baby_sounds transcript;
                                 cues_for_log = (if baby_cues \<noteq> [] then join '', '' baby_cues
                                                 else ''none'');
                                 w2 = print (''Transcript: '' @ take 160 transcript
                                             @ (if length transcript > 160 then ellipsis else []))
                                        w1;
                                 w3 = print (''Detected baby cues: '' @ cues_for_log) w2
                             in (Inr (transcript, baby_cues),
                                 w3\<lparr>fs := unlink (fs w3) audio_path\<rparr>))))))"

subsection \<open>Multimodal analysis request builder\<close>

definition MAX_FRAMES :: nat where
  "MAX_FRAMES = 12"

definition cues_text :: "string list \<Rightarrow> string" where
  "cues_text baby_cues =
     (if baby_cues \<noteq> [] then ''Baby cry cues detected in audio: '' @ join '', '' baby_cues
      else ''No specific Dunstan baby cry cues detected in audio.'')"

definition responses_content :: "string \<Rightarrow> string \<Rightarrow> string list \<Rightarrow> string list \<Rightarrow> input_block list" where
  "responses_content prompt_text transcript base64frames baby_cues =
     [InputText prompt_text,
      InputText (''Video audio transcript (may be noisy/partial): '' @ transcript),
      InputText (cues_text baby_cues)]
     @ map (\<lambda>b64. InputImage (''data:image/jpeg;base64,'' @ b64)) (take MAX_FRAMES base64frames)"

definition chat_messages :: "string \<Rightarrow> string \<Rightarrow> string list \<Rightarrow> string list \<Rightarrow> chat_block list" where
  "chat_messages prompt_text transcript base64frames baby_cues =
     [ChatText prompt_text,
      ChatText (''Video audio transcript (may be noisy/partial): '' @ transcript),
      ChatText (cues_text baby_cues)]
     @ map (\<lambda>b64. ChatImageUrl (''data:image/jpeg;base64,'' @ b64)) (take MAX_FRAMES base64frames)"

text \<open>
  The scan of the output blocks: the first \<^verbatim>\<open>output_text\<close> entry of the first message
  block that has one. A message block without a \<^verbatim>\<open>content\<close> attribute raises
  \<^verbatim>\<open>AttributeError\<close>.
\<close>

fun first_output_text :: "output_block list \<Rightarrow> error + string option" where
  "first_output_text [] = Inr None"
| "first_output_text (block # blocks) =
     (if block_type block = Some ''message'' then
        (case block_content block of
           None \<Rightarrow> Inl (AttributeError ''content'')
         | Some entries \<Rightarrow>
             (case find (\<lambda>c. entry_type c = Some ''output_text'') entries of
                Some c \<Rightarrow> Inr (Some (case entry_text c of None \<Rightarrow> [] | Some t \<Rightarrow> t))
              | None \<Rightarrow> first_output_text blocks))
      else first_output_text blocks)"

text \<open>The body of the \<^verbatim>\<open>try\<close>: the line to print, or the exception raised.\<close>

definition responses_attempt :: "env \<Rightarrow> llm_request \<Rightarrow> world \<Rightarrow> (error + string) \<times> world" where
  "responses_attempt env request w =
     (if \<not> has_responses env then (Inl (AttributeError ''responses''), w)
      else
        let w1 = w\<lparr>llm_calls := llm_calls w @ [request]\<rparr>
        in case responses_create env request of
             Inl e \<Rightarrow> (Inl e, w1)
           | Inr resp \<Rightarrow>
               (case output_text resp of
                  Some t \<Rightarrow>
                    if t \<noteq> [] then (Inr t, w1)
                    else (case first_output_text (case resp_output resp of None \<Rightarrow> [] | Some bs \<Rightarrow> bs) of
                            Inl e \<Rightarrow> (Inl e, w1)
                          | Inr (Some t') \<Rightarrow> (Inr t', w1)
                          | Inr None \<Rightarrow> (Inr (response_repr resp), w1))
                | None \<Rightarrow>
                    (case first_output_text (case resp_output resp of None \<Rightarrow> [] | Some bs \<Rightarrow> bs) of
                       Inl e \<Rightarrow> (Inl e, w1)
                     | Inr (Some t') \<Rightarrow> (Inr t', w1)
                     | Inr None \<Rightarrow> (Inr (response_repr resp), w1))))"

definition chat_attempt :: "env \<Rightarrow> llm_request \<Rightarrow> world \<Rightarrow> (error + unit) \<times> world" where
  "chat_attempt env request w =
     (let w1 = w\<lparr>llm_calls := llm_calls w @ [request]\<rparr>
      in case chat_create env request of
           Inl e \<Rightarrow> (Inl e, w1)
         | Inr [] \<Rightarrow> (Inl (IndexError ''list index out of range''), w1)
         | Inr (choice # choices) \<Rightarrow> (Inr (), print choice w1))"

definition analyze_frames_with_responses ::
  "env \<Rightarrow> string \<Rightarrow> string \<Rightarrow> string list \<Rightarrow> string list \<Rightarrow> world \<Rightarrow> (error + unit) \<times> world" where
  "analyze_frames_with_responses env prompt_text transcript base64frames baby_cues w =
     (case responses_attempt env
             (ResponsesRequest ''gpt-4.1-mini''
                (responses_content prompt_text transcript base64frames baby_cues) 300) w of
        (Inr line, w1) \<Rightarrow> (Inr (), print line w1)
      | (Inl (AttributeError m), w1) \<Rightarrow>
          chat_attempt env
            (ChatRequest ''gpt-4o-mini''
               (chat_messages prompt_text transcript base64frames baby_cues) 300) w1
      | (Inl e, w1) \<Rightarrow> (Inl e, w1))"

text \<open>
  The frames a request carries, in order: the payload of each image block, without the
  \<^verbatim>\<open>data:image/jpeg;base64,\<close> prefix.
\<close>

definition DATA_URL_PREFIX :: string where
  "DATA_URL_PREFIX = ''data:image/jpeg;base64,''"

fun input_images :: "input_block list \<Rightarrow> string list" where
  "input_images [] = []"
| "input_images (InputText t # bs) = input_images bs"
| "input_images (InputImage u # bs) = drop (length DATA_URL_PREFIX) u # input_images bs"

fun chat_images :: "chat_block list \<Rightarrow> string list" where
  "chat_images [] = []"
| "chat_images (ChatText t # bs) = chat_images bs"
| "chat_images (ChatImageUrl u # bs) = drop (length DATA_URL_PREFIX) u # chat_images bs"

fun request_images :: "llm_request \<Rightarrow> string list" where
  "request_images (ResponsesRequest m blocks n) = input_images blocks"
| "request_images (ChatRequest m blocks n) = chat_images blocks"

subsection \<open>Main workflow\<close>

text \<open>
  The loop over \<^verbatim>\<open>sorted(os.listdir(FRAME_FOLDER))\<close>: every regular file with an image
  extension is read and encoded.
\<close>

definition is_image_name :: "string \<Rightarrow> bool" where
  "is_image_name filename =
     (endswith (lower filename) ''.jpg'' \<or> endswith (lower filename) ''.jpeg''
      \<or> endswith (lower filename) ''.png'')"

definition convert_to_base64 :: "env \<Rightarrow> filesystem \<Rightarrow> string \<Rightarrow> string" where
  "convert_to_base64 env f image_path =
     (case fs_lookup f image_path of Some (File bytes) \<Rightarrow> b64encode env bytes | _ \<Rightarrow> [])"

definition gather_frames :: "env \<Rightarrow> filesystem \<Rightarrow> string list" where
  "gather_frames env f =
     map (\<lambda>filename. convert_to_base64 env f (path_join FRAME_FOLDER filename))
       (filter (\<lambda>filename. isfile f (path_join FRAME_FOLDER filename) \<and> is_image_name filename)
          (sort (listdir f FRAME_FOLDER)))"

text \<open>The body of the \<^verbatim>\<open>try\<close> block of \<^verbatim>\<open>video_GPT\<close>.\<close>

definition video_GPT_body ::
  "env \<Rightarrow> string \<Rightarrow> rat \<Rightarrow> rat option \<Rightarrow> world \<Rightarrow> (error + unit) \<times> world" where
  "video_GPT_body env local_video_path start_sec end_sec w =
     (let w1 = extract_frames env local_video_path (1 / 2) start_sec end_sec w
      in case extract_audio_and_transcribe env local_video_path w1 of
           (Inl e, w2) \<Rightarrow> (Inl e, w2)
         | (Inr (transcript, baby_cues), w2) \<Rightarrow>
             analyze_frames_with_responses env PROMPT_VISION transcript
               (gather_frames env (fs w2)) baby_cues w2)"

definition video_GPT ::
  "env \<Rightarrow> string \<Rightarrow> rat \<Rightarrow> rat option \<Rightarrow> string option \<Rightarrow> (string \<times> string option) option
   \<Rightarrow> world \<Rightarrow> (error + unit) \<times> world" where
  "video_GPT env video_path start_sec end_sec cookie_file cookies_from_browser w =
     (case prepare_video_input env video_path cookie_file cookies_from_browser w of
        (Inl e, w1) \<Rightarrow> (Inl e, w1)
      | (Inr (local_video_path, temp_dir), w1) \<Rightarrow>
          (let cleanup_targets = [temp_dir];
               (result, w2) = video_GPT_body env local_video_path start_sec end_sec w1
           in (result, cleanup_paths (cleanup_targets @ [Some FRAME_FOLDER]) w2)))"

subsection \<open>Example inputs\<close>

text \<open>
  A small stand-in for \<^verbatim>\<open>urllib.parse.urlparse\<close>, enough for the examples: the scheme is
  what precedes the first colon when it is a letter followed by letters, digits,
  \<^verbatim>\<open>+\<close>, \<^verbatim>\<open>-\<close> or \<^verbatim>\<open>.\<close>, in lower case; the network location follows \<^verbatim>\<open>//\<close> up to
  the next \<^verbatim>\<open>/\<close>, \<^verbatim>\<open>?\<close> or \<^verbatim>\<open>#\<close>; unbalanced brackets there raise \<^verbatim>\<open>ValueError\<close>.
\<close>

definition is_scheme_char :: "char \<Rightarrow> bool" where
  "is_scheme_char c =
     (is_upper c \<or> is_lower c \<or> is_digit c \<or> c = CHR ''+'' \<or> c = CHR ''-'' \<or> c = CHR ''.'')"

definition demo_urlparse :: "string \<Rightarrow> error + parsed_url" where
  "demo_urlparse url =
     (let pre = takeWhile (\<lambda>c. c \<noteq> CHR '':'') url;
          has_scheme = (length pre < length url \<and> pre \<noteq> []
                        \<and> (is_upper (hd pre) \<or> is_lower (hd pre)) \<and> list_all is_scheme_char pre);
          sch = (if has_scheme then lower pre else []);
          rest = (if has_scheme then drop (Suc (length pre)) url else url);
          stop = (\<lambda>c. c = CHR ''/'' \<or> c = CHR ''?'' \<or> c = CHR ''#'');
          loc = (if take 2 rest = ''//'' then takeWhile (\<lambda>c. \<not> stop c) (drop 2 rest) else []);
          after = (if take 2 rest = ''//'' then dropWhile (\<lambda>c. \<not> stop c) (drop 2 rest) else rest)
      in if (CHR ''['' \<in> set loc) \<noteq> (CHR '']'' \<in> set loc) then Inl (ValueError ''Invalid IPv6 URL'')
         else Inr \<lparr>scheme = sch, netloc = loc,
                    url_path = takeWhile (\<lambda>c. c \<noteq> CHR ''?'' \<and> c \<noteq> CHR ''#'') after\<rparr>)"

text \<open>A ten-second stream at 30 frames per second; frame \<open>i\<close> carries the text of \<open>i\<close>.\<close>

definition demo_video :: capture where
  "demo_video = \<lparr>cap_fps = 30, cap_frames = map str_nat [0..<300], cap_pos = 0\<rparr>"

text \<open>A one-second stream at 30 frames per second.\<close>

definition short_video :: capture where
  "short_video = \<lparr>cap_fps = 30, cap_frames = map str_nat [0..<30], cap_pos = 0\<rparr>"

text \<open>
  Collaborators for the examples. File contents name what they decode to; the primary
  transcription model is unavailable and the fallback answers.
\<close>

definition demo_env :: env where
  "demo_env =
     \<lparr>urlparse = demo_urlparse,
      guess_extension = (\<lambda>ct. if ct = ''video/mp4'' then Some ''.mp4'' else None),
      expanduser = (\<lambda>p. p),
      ytdlp_available = True,
      mkdtemp = (\<lambda>prefix. ''/tmp/'' @ prefix @ ''0001''),
      ydl_download = (\<lambda>url opts. \<lparr>ydl_written = [(''youtube.mp4'', ''SHORT'')], ydl_result = Inr ''mp4''\<rparr>),
      urlopen = (\<lambda>url. HttpResponse (Some ''video/mp4'') ''SHORT'' None),
      video_decode = (\<lambda>bytes. if bytes = ''LONG'' then Some demo_video
                              else if bytes = ''SHORT'' \<or> bytes = ''SILENT'' then Some short_video
                              else None),
      jpg_encode = (\<lambda>frame. frame),
      clip_decode = (\<lambda>bytes. if bytes = ''LONG'' \<or> bytes = ''SHORT'' then Inr \<lparr>clip_audio = Some ''AUDIO''\<rparr>
                             else if bytes = ''SILENT'' then Inr \<lparr>clip_audio = None\<rparr>
                             else Inl (OSError ''cannot decode'')),
      wav_encode = (\<lambda>track. Inr track),
      transcriptions_create = (\<lambda>history m af prompt.
                                 if m = Gpt4oTranscribe then Inl (ServiceError ''model unavailable'')
                                 else Inr ''neh neh HEH''),
      b64encode = (\<lambda>bytes. bytes),
      has_responses = True,
      responses_create = (\<lambda>request. Inr \<lparr>output_text = Some ''The baby is hungry.'',
                                           resp_output = None, response_repr = []\<rparr>),
      chat_create = (\<lambda>request. Inr [''The baby is hungry.''])\<rparr>"

definition demo_world :: world where
  "demo_world =
     \<lparr>fs = [(''clip.mp4'', File ''SHORT''), (''long.mp4'', File ''LONG''),
             (''silent.mp4'', File ''SILENT'')],
      stdout = [], asr_calls = [], llm_calls = []\<rparr>"

text \<open>The collaborators of the examples, with a transcription service that always fails.\<close>

definition failing_asr_env :: env where
  "failing_asr_env =
     demo_env\<lparr>transcriptions_create := (\<lambda>history m af prompt. Inl (ServiceError ''service down''))\<rparr>"

section \<open>Properties\<close>

subsection \<open>Helper facts\<close>

lemma fs_print: "fs (print line w) = fs w"
  by (simp add: print_def)

lemma asr_calls_print: "asr_calls (print line w) = asr_calls w"
  by (simp add: print_def)

lemma llm_calls_print: "llm_calls (print line w) = llm_calls w"
  by (simp add: print_def)

lemma ensure_clean_dir_print:
  "ensure_clean_dir d (print line w) = print line (ensure_clean_dir d w)"
  by (simp add: ensure_clean_dir_def print_def Let_def)

lemma map_fst_sample_loop:
  "map fst (sample_loop fps send skip start idx xs)
   = map fst (sample_loop fps send skip start idx (map (\<lambda>_. []) xs))"
  by (induction xs arbitrary: idx) (simp_all add: Let_def)

lemma sample_loop_before_end:
  "(i, f) \<in> set (sample_loop fps (Some e) skip start idx xs) \<Longrightarrow> fps \<noteq> 0 \<Longrightarrow> of_int i / fps < e"
  by (induction xs arbitrary: idx) (auto simp: Let_def split: if_splits)

lemma sample_loop_frame:
  "(i, f) \<in> set (sample_loop fps send skip start idx xs) \<Longrightarrow>
     \<exists>k < length xs. i = start + idx + int k \<and> f = xs ! k"
proof (induction xs arbitrary: idx)
  case Nil
  then show ?case by simp
next
  case (Cons x xs)
  from Cons.prems consider
      (here) "i = start + idx" "f = x"
    | (later) "(i, f) \<in> set (sample_loop fps send skip start (idx + 1) xs)"
    by (auto simp: Let_def split: if_splits)
  then show ?case
  proof cases
    case here
    then show ?thesis by (intro exI[of _ 0]) simp
  next
    case later
    from Cons.IH[OF later] obtain k
      where "k < length xs" "i = start + (idx + 1) + int k" "f = xs ! k"
      by blast
    then show ?thesis by (intro exI[of _ "Suc k"]) simp
  qed
qed

lemma sample_loop_30_2_5:
  "map fst (sample_loop 30 (Some 5) 15 60 0 (replicate 240 [])) = [60, 75, 90, 105, 120, 135]"
  by code_simp

subsection \<open>Sampling stride\<close>



subsection \<open>Invalid windows\<close>

text \<open>
  C8: when \<open>end_sec\<close> is present and not greater than \<open>start_sec\<close>, the end bound is
  dropped, and \<^verbatim>\<open>extract_frames\<close> does exactly what it does for an unbounded window after
  printing the warning. It returns a world in every case: the window raises nothing.
\<close>

theorem invalid_window_unbounded:
  assumes "e \<le> start_sec"
  shows "safe_end start_sec (Some e) = None
         \<and> extract_frames env video_path interval_sec start_sec (Some e) w
           = extract_frames env video_path interval_sec start_sec None
               (print ''End timestamp must be greater than start; processing full video instead.'' w)"
proof -
  have le: "e \<le> safe_start start_sec" using assms by (simp add: safe_start_def max_def)
  then have se: "safe_end start_sec (Some e) = None" by (simp add: safe_end_def)
  have ww: "window_warning start_sec (Some e)" using le by (simp add: window_warning_def)
  have wn: "\<not> window_warning start_sec None" by (simp add: window_warning_def)
  have sf: "sampled_frames cap interval_sec start_sec (Some e)
            = sampled_frames cap interval_sec start_sec None" for cap
    using le by (simp add: sampled_frames_def Let_def safe_end_def)
  show ?thesis
    by (simp add: se extract_frames_def Let_def ww wn sf ensure_clean_dir_print
          cong: option.case_cong)
qed

theorem invalid_window_unbounded_witness:
  "(0::rat) \<le> 0
   \<and> stdout (extract_frames demo_env ''clip.mp4'' (1 / 2) 0 (Some 0) demo_world)
     = [''End timestamp must be greater than start; processing full video instead.'',
        ''Saved ../data/crying_baby/frames/frame_0000000.jpg'',
        ''Saved ../data/crying_baby/frames/frame_0000015.jpg'']"
proof -
  have "stdout (extract_frames demo_env ''clip.mp4'' (1 / 2) 0 None
          (print ''End timestamp must be greater than start; processing full video instead.''
             demo_world))
        = [''End timestamp must be greater than start; processing full video instead.'',
           ''Saved ../data/crying_baby/frames/frame_0000000.jpg'',
           ''Saved ../data/crying_baby/frames/frame_0000015.jpg'']"
    by code_simp
  then show ?thesis
    using invalid_window_unbounded[of 0 0 demo_env "''clip.mp4''" "1 / 2" demo_world]
    by simp
qed

subsection \<open>Transcription fallback\<close>

text \<open>
  C4: with the audio file in place, the primary model is called first. If it answers, its
  text is returned and no other call is made. If it raises, exactly one more call is
  made, to the fallback model, and the result of \<^verbatim>\<open>transcribe_audio\<close> is the result of
  that call as it is: its text when it answers, its exception when it raises. There is no
  third call. Without the audio file both attempts fail at opening it, the error goes to
  the caller, and the service is not called.
\<close>

theorem transcribe_audio_fallback:
  "(\<forall>af t. fs_lookup (fs w) audio_path = Some (File af)
        \<and> transcriptions_create env (asr_calls w) Gpt4oTranscribe af TRANSCRIPTION_PROMPT = Inr t \<longrightarrow>
      fst (transcribe_audio env audio_path w) = Inr t
      \<and> asr_calls (snd (transcribe_audio env audio_path w)) = asr_calls w @ [Gpt4oTranscribe])
   \<and> (\<forall>af e. fs_lookup (fs w) audio_path = Some (File af)
        \<and> transcriptions_create env (asr_calls w) Gpt4oTranscribe af TRANSCRIPTION_PROMPT = Inl e \<longrightarrow>
      fst (transcribe_audio env audio_path w)
        = transcriptions_create env (asr_calls w @ [Gpt4oTranscribe]) Whisper1 af TRANSCRIPTION_PROMPT
      \<and> asr_calls (snd (transcribe_audio env audio_path w))
        = asr_calls w @ [Gpt4oTranscribe, Whisper1])
   \<and> ((\<forall>af. fs_lookup (fs w) audio_path \<noteq> Some (File af)) \<longrightarrow>
      fst (transcribe_audio env audio_path w) = Inl (OSError (''No such file: '' @ audio_path))
      \<and> asr_calls (snd (transcribe_audio env audio_path w)) = asr_calls w)"
proof (intro conjI allI impI)
  fix af t
  assume "fs_lookup (fs w) audio_path = Some (File af)
        \<and> transcriptions_create env (asr_calls w) Gpt4oTranscribe af TRANSCRIPTION_PROMPT = Inr t"
  then show "fst (transcribe_audio env audio_path w) = Inr t"
    and "asr_calls (snd (transcribe_audio env audio_path w)) = asr_calls w @ [Gpt4oTranscribe]"
    by (simp_all add: transcribe_audio_def transcription_attempt_def)
next
  fix af e
  assume "fs_lookup (fs w) audio_path = Some (File af)
        \<and> transcriptions_create env (asr_calls w) Gpt4oTranscribe af TRANSCRIPTION_PROMPT = Inl e"
  then show "fst (transcribe_audio env audio_path w)
        = transcriptions_create env (asr_calls w @ [Gpt4oTranscribe]) Whisper1 af TRANSCRIPTION_PROMPT"
    and "asr_calls (snd (transcribe_audio env audio_path w)) = asr_calls w @ [Gpt4oTranscribe, Whisper1]"
    by (simp_all add: transcribe_audio_def transcription_attempt_def print_def)
next
  assume a: "\<forall>af. fs_lookup (fs w) audio_path \<noteq> Some (File af)"
  have att: "transcription_attempt env m audio_path w' = (Inl (OSError (''No such file: '' @ audio_path)), w')"
    if "fs w' = fs w" for m w'
    using a that by (auto simp: transcription_attempt_def split: option.splits node.splits)
  show "fst (transcribe_audio env audio_path w) = Inl (OSError (''No such file: '' @ audio_path))"
    and "asr_calls (snd (transcribe_audio env audio_path w)) = asr_calls w"
    by (simp_all add: transcribe_audio_def att fs_print asr_calls_print)
qed

theorem transcribe_audio_fallback_witness:
  "fs_lookup [(''a.wav'', File ''AUDIO'')] ''a.wav'' = Some (File ''AUDIO'')
   \<and> transcriptions_create demo_env [] Gpt4oTranscribe ''AUDIO'' TRANSCRIPTION_PROMPT
     = Inl (ServiceError ''model unavailable'')
   \<and> fst (transcribe_audio demo_env ''a.wav'' (demo_world\<lparr>fs := [(''a.wav'', File ''AUDIO'')]\<rparr>))
     = Inr ''neh neh HEH''
   \<and> asr_calls (snd (transcribe_audio demo_env ''a.wav'' (demo_world\<lparr>fs := [(''a.wav'', File ''AUDIO'')]\<rparr>)))
     = [Gpt4oTranscribe, Whisper1]
   \<and> (\<forall>af. fs_lookup (fs demo_world) ''a.wav'' \<noteq> Some (File af))
   \<and> fst (transcribe_audio demo_env ''a.wav'' demo_world) = Inl (OSError ''No such file: a.wav'')
   \<and> asr_calls (snd (transcribe_audio demo_env ''a.wav'' demo_world)) = []"
proof -
  let ?w = "demo_world\<lparr>fs := [(''a.wav'', File ''AUDIO'')]\<rparr>"
  have a: "fs_lookup (fs ?w) ''a.wav'' = Some (File ''AUDIO'')"
    by (simp add: fs_lookup_def)
  have b: "asr_calls ?w = []" "asr_calls demo_world = []" by (simp_all add: demo_world_def)
  have c: "transcriptions_create demo_env [] Gpt4oTranscribe ''AUDIO'' TRANSCRIPTION_PROMPT
           = Inl (ServiceError ''model unavailable'')"
    by (simp add: demo_env_def)
  have d: "transcriptions_create demo_env [Gpt4oTranscribe] Whisper1 ''AUDIO'' TRANSCRIPTION_PROMPT
           = Inr ''neh neh HEH''"
    by (simp add: demo_env_def)
  have e: "\<forall>af. fs_lookup (fs demo_world) ''a.wav'' \<noteq> Some (File af)"
    by (simp add: demo_world_def fs_lookup_def)
  note second = transcribe_audio_fallback[of ?w "''a.wav''" demo_env, THEN conjunct2, THEN conjunct1,
      rule_format, of "''AUDIO''" "ServiceError ''model unavailable''"]
  note third = transcribe_audio_fallback[of demo_world "''a.wav''" demo_env, THEN conjunct2, THEN conjunct2,
      rule_format]
  have s: "fst (transcribe_audio demo_env ''a.wav'' ?w) = Inr ''neh neh HEH''"
    "asr_calls (snd (transcribe_audio demo_env ''a.wav'' ?w)) = [Gpt4oTranscribe, Whisper1]"
    using second a c d by (simp_all add: b)
  have t: "fst (transcribe_audio demo_env ''a.wav'' demo_world) = Inl (OSError ''No such file: a.wav'')"
    "asr_calls (snd (transcribe_audio demo_env ''a.wav'' demo_world)) = []"
    using third e by (simp_all add: b)
  from a c s e t show ?thesis by (simp add: fs_lookup_def)
qed

subsection \<open>Videos without an audio track\<close>

text \<open>
  C9: when the clip opens and has no audio track, \<^verbatim>\<open>extract_audio_and_transcribe\<close>
  returns the fixed sentinel text with no cues; it raises nothing, calls the
  transcription service not at all, and leaves the filesystem as it was.
\<close>

theorem no_audio_sentinel:
  assumes "VideoFileClip env (fs w) video_path = Inr c" and "clip_audio c = None"
  shows "extract_audio_and_transcribe env video_path w
         = (Inr (''There is no audio for this video.'', []),
            print ''There is no audio for this video.'' w)
         \<and> asr_calls (snd (extract_audio_and_transcribe env video_path w)) = asr_calls w
         \<and> fs (snd (extract_audio_and_transcribe env video_path w)) = fs w"
  using assms by (simp add: extract_audio_and_transcribe_def NO_AUDIO_def print_def)

theorem no_audio_sentinel_witness:
  "VideoFileClip demo_env (fs demo_world) ''silent.mp4'' = Inr \<lparr>clip_audio = None\<rparr>
   \<and> clip_audio \<lparr>clip_audio = None\<rparr> = None
   \<and> fst (extract_audio_and_transcribe demo_env ''silent.mp4'' demo_world)
     = Inr (''There is no audio for this video.'', [])
   \<and> asr_calls (snd (extract_audio_and_transcribe demo_env ''silent.mp4'' demo_world)) = []"
proof -
  have a: "VideoFileClip demo_env (fs demo_world) ''silent.mp4'' = Inr \<lparr>clip_audio = None\<rparr>"
    by (simp add: VideoFileClip_def demo_env_def demo_world_def fs_lookup_def)
  have b: "clip_audio \<lparr>clip_audio = None\<rparr> = None" by simp
  have c: "asr_calls demo_world = []" by (simp add: demo_world_def)
  from no_audio_sentinel[OF a b]
  have "fst (extract_audio_and_transcribe demo_env ''silent.mp4'' demo_world)
          = Inr (''There is no audio for this video.'', [])"
    and "asr_calls (snd (extract_audio_and_transcribe demo_env ''silent.mp4'' demo_world)) = []"
    by (simp_all add: c print_def)
  with a b show ?thesis by simp
qed

subsection \<open>Frame names sort by index\<close>

lemma length_digits: "length (digits k n) = k"
  by (induction k arbitrary: n) simp_all

lemma digit_char_zero: "digit_char 0 = CHR ''0''"
  by code_simp

lemma digits_zero: "digits k 0 = replicate k (CHR ''0'')"
  by (induction k) (simp_all add: digit_char_zero replicate_append_same)

lemma zero_pad_snoc: "zero_pad (Suc k) (xs @ [c]) = zero_pad k xs @ [c]"
  by (simp add: zero_pad_def)

lemma zero_pad_dec_digits:
  "0 < k \<Longrightarrow> n < 10 ^ k \<Longrightarrow> n < 10 ^ f \<Longrightarrow> zero_pad k (dec_digits f n) = digits k n"
proof (induction f arbitrary: n k)
  case 0
  then have "n = 0" by simp
  then show ?case by (simp add: zero_pad_def digits_zero)
next
  case (Suc f)
  show ?case
  proof (cases "n < 10")
    case True
    obtain k' where k: "k = Suc k'" using Suc.prems(1) by (cases k) simp_all
    show ?thesis using True by (simp add: k zero_pad_def digits_zero)
  next
    case False
    obtain k' where k: "k = Suc k'" using Suc.prems(1) by (cases k) simp_all
    have a: "n div 10 < 10 ^ k'" using Suc.prems(2) k by (simp add: less_mult_imp_div_less)
    have b: "n div 10 < 10 ^ f" using Suc.prems(3) by (simp add: less_mult_imp_div_less)
    have c: "0 < k'" using a False by (cases k') simp_all
    show ?thesis
      using False Suc.IH[OF c a b] by (simp add: k zero_pad_snoc)
  qed
qed

lemma fmt_07d_digits: "n < 10 ^ 7 \<Longrightarrow> fmt_07d (int n) = digits 7 n"
proof -
  assume n: "n < 10 ^ 7"
  have "m < 10 ^ Suc m" for m :: nat
    by (induction m) simp_all
  then have "n < 10 ^ Suc n" .
  then show ?thesis using n zero_pad_dec_digits[of 7 n "Suc n"] by (simp add: fmt_07d_def str_nat_def)
qed


lemma digit_char_less: "a < b \<Longrightarrow> b < 10 \<Longrightarrow> digit_char a < digit_char b"
  by (simp add: digit_char_def less_char_def)

lemma lexord_append_same_length:
  "(xs, ys) \<in> lexord r \<Longrightarrow> length xs = length ys \<Longrightarrow> (xs @ us, ys @ vs) \<in> lexord r"
proof (induction xs arbitrary: ys)
  case Nil
  then show ?case by simp
next
  case (Cons x xs)
  then obtain y ys' where ys: "ys = y # ys'" by (cases ys) simp_all
  with Cons.prems have "(x, y) \<in> r \<or> x = y \<and> (xs, ys') \<in> lexord r" by simp
  then show ?case using Cons.IH[of ys'] Cons.prems(2) ys by auto
qed

lemma less_append_same_length:
  fixes xs ys :: string
  shows "xs < ys \<Longrightarrow> length xs = length ys \<Longrightarrow> xs @ us < ys @ vs"
  unfolding list_less_def by (rule lexord_append_same_length)

lemma less_append_left:
  fixes xs ys :: string
  shows "xs < ys \<Longrightarrow> us @ xs < us @ ys"
  unfolding list_less_def by (rule lexord_append_leftI)

lemma digits_less: "n < m \<Longrightarrow> m < 10 ^ k \<Longrightarrow> digits k n < digits k m"
proof (induction k arbitrary: n m)
  case 0
  then show ?case by simp
next
  case (Suc k)
  have le: "n div 10 \<le> m div 10" using Suc.prems(1) by (simp add: div_le_mono)
  show ?case
  proof (cases "n div 10 < m div 10")
    case True
    have "m div 10 < 10 ^ k" using Suc.prems(2) by (simp add: less_mult_imp_div_less)
    then have "digits k (n div 10) < digits k (m div 10)" using True by (rule Suc.IH[rotated])
    then show ?thesis by (simp add: less_append_same_length length_digits)
  next
    case False
    with le have eq: "n div 10 = m div 10" by simp
    have "n = n div 10 * 10 + n mod 10" "m = m div 10 * 10 + m mod 10" by simp_all
    with eq Suc.prems(1) have "n mod 10 < m mod 10" by linarith
    then have "digit_char (n mod 10) < digit_char (m mod 10)" by (rule digit_char_less) simp
    then have "[digit_char (n mod 10)] < [digit_char (m mod 10)]" by (simp add: list_less_def)
    then show ?thesis by (simp add: eq less_append_left)
  qed
qed

lemma frame_name_less:
  assumes "0 \<le> i" "i < j" "j < 10 ^ 7"
  shows "frame_name i < frame_name j"
proof -
  have i: "fmt_07d i = digits 7 (nat i)" using fmt_07d_digits[of "nat i"] assms by simp
  have j: "fmt_07d j = digits 7 (nat j)" using fmt_07d_digits[of "nat j"] assms by simp
  have "digits 7 (nat i) < digits 7 (nat j)" using assms by (intro digits_less) simp_all
  then have "digits 7 (nat i) @ ''.jpg'' < digits 7 (nat j) @ ''.jpg''"
    by (rule less_append_same_length) (simp add: length_digits)
  then have "''frame_'' @ digits 7 (nat i) @ ''.jpg'' < ''frame_'' @ digits 7 (nat j) @ ''.jpg''"
    by (rule less_append_left)
  then show ?thesis unfolding frame_name_def i j .
qed

lemma frame_names_sorted:
  assumes "sorted_wrt (<) idxs" "\<forall>i \<in> set idxs. 0 \<le> i \<and> i < 10 ^ 7"
  shows "sorted_wrt (<) (map frame_name idxs)"
proof -
  have "sorted_wrt (\<lambda>i j. frame_name i < frame_name j) idxs"
    using assms(1)
  proof (rule sorted_wrt_mono_rel[rotated])
    fix i j
    assume "i \<in> set idxs" "j \<in> set idxs" "i < j"
    then show "frame_name i < frame_name j" using assms(2) by (intro frame_name_less) auto
  qed
  then show ?thesis by (simp add: sorted_wrt_map)
qed

lemma is_image_frame_name: "is_image_name (frame_name i)"
proof -
  have "lower (frame_name i) = lower (''frame_'' @ fmt_07d i) @ ''.jpg''"
    unfolding frame_name_def lower_def by (simp add: lower_char_def is_upper_def less_eq_char_def)
  then show ?thesis by (simp add: is_image_name_def endswith_def)
qed

text \<open>
  The frames that \<^verbatim>\<open>video_GPT\<close> gathers. When the frame directory lists exactly the
  files saved for the indices \<open>idxs\<close> (ascending, each below ten million, so that its name
  has seven digits), the gathered sequence is those files' contents in ascending index
  order.
\<close>

lemma gather_frames_in_index_order:
  assumes "set (listdir f FRAME_FOLDER) = frame_name ` set idxs"
    and "distinct (listdir f FRAME_FOLDER)"
    and "sorted_wrt (<) idxs" and "\<forall>i \<in> set idxs. 0 \<le> i \<and> i < 10 ^ 7"
    and "\<forall>i \<in> set idxs. fs_lookup f (frame_path i) = Some (File (content i))"
  shows "gather_frames env f = map (\<lambda>i. b64encode env (content i)) idxs"
proof -
  have s: "sorted_wrt (<) (map frame_name idxs)" using assms(3,4) by (rule frame_names_sorted)
  then have "sorted (map frame_name idxs)" and "distinct (map frame_name idxs)"
    by (simp_all add: strict_sorted_iff)
  moreover have "sorted (sort (listdir f FRAME_FOLDER))" and "distinct (sort (listdir f FRAME_FOLDER))"
    using assms(2) by simp_all
  moreover have "set (sort (listdir f FRAME_FOLDER)) = set (map frame_name idxs)"
    using assms(1) by simp
  ultimately have srt: "sort (listdir f FRAME_FOLDER) = map frame_name idxs"
    by (intro sorted_distinct_set_unique)
  have keep: "filter (\<lambda>filename. isfile f (path_join FRAME_FOLDER filename) \<and> is_image_name filename)
                (map frame_name idxs) = map frame_name idxs"
    using assms(5) by (auto simp: filter_id_conv isfile_def frame_path_def is_image_frame_name)
  show ?thesis
    unfolding gather_frames_def srt keep
    using assms(5) by (simp add: convert_to_base64_def frame_path_def)
qed

subsection \<open>Frame cap\<close>

lemma input_images_map:
  "input_images (map (\<lambda>b64. InputImage (''data:image/jpeg;base64,'' @ b64)) xs) = xs"
  by (induction xs) (simp_all add: DATA_URL_PREFIX_def)

lemma chat_images_map:
  "chat_images (map (\<lambda>b64. ChatImageUrl (''data:image/jpeg;base64,'' @ b64)) xs) = xs"
  by (induction xs) (simp_all add: DATA_URL_PREFIX_def)

lemma request_images_responses:
  "request_images (ResponsesRequest m (responses_content p t frames cues) n) = take 12 frames"
  by (simp add: responses_content_def MAX_FRAMES_def input_images_map[unfolded append.simps])

lemma request_images_chat:
  "request_images (ChatRequest m (chat_messages p t frames cues) n) = take 12 frames"
  by (simp add: chat_messages_def MAX_FRAMES_def chat_images_map[unfolded append.simps])

lemma responses_attempt_calls:
  "llm_calls (snd (responses_attempt env request w)) = llm_calls w
   \<or> llm_calls (snd (responses_attempt env request w)) = llm_calls w @ [request]"
  by (simp add: responses_attempt_def Let_def split: sum.splits option.splits)

lemma chat_attempt_calls:
  "llm_calls (snd (chat_attempt env request w)) = llm_calls w @ [request]"
  by (simp add: chat_attempt_def Let_def llm_calls_print split: sum.splits list.splits)

lemma analyze_calls:
  "\<exists>new. llm_calls (snd (analyze_frames_with_responses env p t frames cues w)) = llm_calls w @ new
     \<and> set new \<subseteq> {ResponsesRequest ''gpt-4.1-mini'' (responses_content p t frames cues) 300,
                    ChatRequest ''gpt-4o-mini'' (chat_messages p t frames cues) 300}"
proof -
  let ?R = "ResponsesRequest ''gpt-4.1-mini'' (responses_content p t frames cues) 300"
  let ?C = "ChatRequest ''gpt-4o-mini'' (chat_messages p t frames cues) 300"
  obtain r w1 where ra: "responses_attempt env ?R w = (r, w1)" by (cases "responses_attempt env ?R w")
  from responses_attempt_calls[of env ?R w] ra
  have w1: "llm_calls w1 = llm_calls w \<or> llm_calls w1 = llm_calls w @ [?R]" by simp
  show ?thesis
  proof (cases r)
    case (Inr line)
    then have "llm_calls (snd (analyze_frames_with_responses env p t frames cues w)) = llm_calls w1"
      by (simp add: analyze_frames_with_responses_def ra llm_calls_print)
    with w1 show ?thesis by auto
  next
    case (Inl e)
    show ?thesis
    proof (cases "\<exists>m. e = AttributeError m")
      case True
      then have "llm_calls (snd (analyze_frames_with_responses env p t frames cues w))
                 = llm_calls w1 @ [?C]"
        using Inl by (auto simp: analyze_frames_with_responses_def ra chat_attempt_calls)
      with w1 show ?thesis by auto
    next
      case False
      then have "llm_calls (snd (analyze_frames_with_responses env p t frames cues w)) = llm_calls w1"
        using Inl by (cases e) (simp_all add: analyze_frames_with_responses_def ra)
      with w1 show ?thesis by auto
    qed
  qed
qed

text \<open>
  C7: whatever the frames given to the request builder, each request shape carries
  exactly the first \<open>min (length frames) 12\<close> of them, in the order given: a prefix of the
  input, nothing sampled, reordered or dropped inside, so frames given in ascending order
  of their index (or of any key) are carried in ascending order. Every request that
  \<^verbatim>\<open>analyze_frames_with_responses\<close> submits is one of the two shapes, so it carries that
  prefix; with 40 frames it carries the first 12.
\<close>

theorem frame_cap_prefix:
  "request_images (ResponsesRequest ''gpt-4.1-mini'' (responses_content p t frames cues) 300)
     = take (min (length frames) 12) frames
   \<and> request_images (ChatRequest ''gpt-4o-mini'' (chat_messages p t frames cues) 300)
     = take (min (length frames) 12) frames
   \<and> (\<exists>new. llm_calls (snd (analyze_frames_with_responses env p t frames cues w)) = llm_calls w @ new
        \<and> (\<forall>request \<in> set new. request_images request = take (min (length frames) 12) frames))
   \<and> (\<forall>key :: string \<Rightarrow> int. sorted (map key frames) \<longrightarrow>
        sorted (map key (take (min (length frames) 12) frames)))
   \<and> (length frames = 40 \<longrightarrow>
        length (take (min (length frames) 12) frames) = 12
        \<and> (\<forall>i < 12. take (min (length frames) 12) frames ! i = frames ! i))"
proof -
  have tk: "take (min (length frames) 12) frames = take 12 frames" by (simp add: min_def)
  from analyze_calls[of env p t frames cues w] obtain new
    where new: "llm_calls (snd (analyze_frames_with_responses env p t frames cues w)) = llm_calls w @ new"
      and sub: "set new \<subseteq> {ResponsesRequest ''gpt-4.1-mini'' (responses_content p t frames cues) 300,
                             ChatRequest ''gpt-4o-mini'' (chat_messages p t frames cues) 300}"
    by blast
  have "\<forall>request \<in> set new. request_images request = take 12 frames"
    using sub request_images_responses request_images_chat by blast
  with new have third: "\<exists>new. llm_calls (snd (analyze_frames_with_responses env p t frames cues w)) = llm_calls w @ new
        \<and> (\<forall>request \<in> set new. request_images request = take (min (length frames) 12) frames)"
    unfolding tk by blast
  have fourth: "length frames = 40 \<longrightarrow>
        length (take (min (length frames) 12) frames) = 12
        \<and> (\<forall>i < 12. take (min (length frames) 12) frames ! i = frames ! i)"
    by simp
  have order: "\<forall>key :: string \<Rightarrow> int. sorted (map key frames) \<longrightarrow>
        sorted (map key (take (min (length frames) 12) frames))"
  proof (intro allI impI)
    fix key :: "string \<Rightarrow> int"
    assume "sorted (map key frames)"
    then have "sorted (take (min (length frames) 12) (map key frames))"
      by (rule sorted_wrt_take)
    then show "sorted (map key (take (min (length frames) 12) frames))"
      by (simp only: take_map)
  qed
  show ?thesis
    using third fourth order unfolding tk
    by (simp only: request_images_responses request_images_chat simp_thms)
qed

theorem frame_cap_prefix_witness:
  "length (map str_nat [100..<140]) = 40
   \<and> llm_calls (snd (analyze_frames_with_responses demo_env PROMPT_VISION ''neh'' (map str_nat [100..<140]) [''NEH''] demo_world))
     = [ResponsesRequest ''gpt-4.1-mini'' (responses_content PROMPT_VISION ''neh'' (map str_nat [100..<140]) [''NEH'']) 300]
   \<and> request_images (ResponsesRequest ''gpt-4.1-mini'' (responses_content PROMPT_VISION ''neh'' (map str_nat [100..<140]) [''NEH'']) 300)
     = [''100'', ''101'', ''102'', ''103'', ''104'', ''105'', ''106'', ''107'', ''108'', ''109'',
        ''110'', ''111'']"
proof -
  have a: "take (min (length (map str_nat [100..<140])) 12) (map str_nat [100..<140])
           = [''100'', ''101'', ''102'', ''103'', ''104'', ''105'', ''106'', ''107'', ''108'', ''109'',
        ''110'', ''111'']"
    by code_simp
  have b: "llm_calls (snd (analyze_frames_with_responses demo_env PROMPT_VISION ''neh'' frames [''NEH''] demo_world))
           = [ResponsesRequest ''gpt-4.1-mini'' (responses_content PROMPT_VISION ''neh'' frames [''NEH'']) 300]"
    for frames
    by (simp add: analyze_frames_with_responses_def responses_attempt_def demo_env_def demo_world_def
          Let_def llm_calls_print)
  have c: "length (map str_nat [100..<140]) = 40" by simp
  note carried = frame_cap_prefix[of PROMPT_VISION "''neh''" "map str_nat [100..<140]" "[''NEH'']"
      demo_env demo_world, THEN conjunct1]
  have d: "request_images (ResponsesRequest ''gpt-4.1-mini''
             (responses_content PROMPT_VISION ''neh'' (map str_nat [100..<140]) [''NEH'']) 300)
           = [''100'', ''101'', ''102'', ''103'', ''104'', ''105'', ''106'', ''107'', ''108'', ''109'',
        ''110'', ''111'']"
    by (simp only: carried a)
  from c b d show ?thesis by (intro conjI)
qed

subsection \<open>Source classification\<close>

text \<open>
  C5: the three-way classification behind \<^verbatim>\<open>prepare_video_input\<close>. A string that does
  not parse (\<^verbatim>\<open>ValueError\<close>) or parses with a scheme other than \<open>http\<close> and \<open>https\<close> is a
  local path, returned as it is with no temporary directory and no effect; a string with such a scheme whose network
  location contains \<open>youtube.com\<close> or \<open>youtu.be\<close> (case ignored) goes to the platform
  downloader; every other string with such a scheme goes to the generic downloader.
\<close>

theorem classify_three_way:
  "(is_url (urlparse env) source = Inr False \<longrightarrow>
      classify env source = Inr (Local source)
      \<and> prepare_video_input env source cookie_file cookies w = (Inr (source, None), w))
   \<and> (\<forall>parsed. urlparse env source = Inr parsed \<and> scheme parsed \<in> {''http'', ''https''} \<longrightarrow>
        is_url (urlparse env) source = Inr True
        \<and> ((contains (lower (netloc parsed)) ''youtube.com'' \<or> contains (lower (netloc parsed)) ''youtu.be'') \<longrightarrow>
             classify env source = Inr (PlatformHosted source)
             \<and> fst (prepare_video_input env source cookie_file cookies w)
               = map_sum (\<lambda>e. e) (\<lambda>(p, d). (p, Some d))
                   (fst (download_youtube_video env source cookie_file cookies
                      (print (''Downloading YouTube video from '' @ source @ ellipsis) w))))
        \<and> (\<not> (contains (lower (netloc parsed)) ''youtube.com'' \<or> contains (lower (netloc parsed)) ''youtu.be'') \<longrightarrow>
             classify env source = Inr (RemoteFile source)
             \<and> fst (prepare_video_input env source cookie_file cookies w)
               = map_sum (\<lambda>e. e) (\<lambda>(p, d). (p, Some d))
                   (fst (download_generic_video env source
                      (print (''Downloading remote video from '' @ source @ ellipsis) w)))))
   \<and> (is_url (urlparse env) source = Inr False \<longleftrightarrow>
        (\<exists>m. urlparse env source = Inl (ValueError m))
        \<or> (\<exists>parsed. urlparse env source = Inr parsed \<and> scheme parsed \<notin> {''http'', ''https''}))"
proof -
  have one: "is_url (urlparse env) source = Inr False \<longrightarrow>
      classify env source = Inr (Local source)
      \<and> prepare_video_input env source cookie_file cookies w = (Inr (source, None), w)"
    by (simp add: classify_def prepare_video_input_def)
  have two: "is_url (urlparse env) source = Inr True
        \<and> ((contains (lower (netloc parsed)) ''youtube.com'' \<or> contains (lower (netloc parsed)) ''youtu.be'') \<longrightarrow>
             classify env source = Inr (PlatformHosted source)
             \<and> fst (prepare_video_input env source cookie_file cookies w)
               = map_sum (\<lambda>e. e) (\<lambda>(p, d). (p, Some d))
                   (fst (download_youtube_video env source cookie_file cookies
                      (print (''Downloading YouTube video from '' @ source @ ellipsis) w))))
        \<and> (\<not> (contains (lower (netloc parsed)) ''youtube.com'' \<or> contains (lower (netloc parsed)) ''youtu.be'') \<longrightarrow>
             classify env source = Inr (RemoteFile source)
             \<and> fst (prepare_video_input env source cookie_file cookies w)
               = map_sum (\<lambda>e. e) (\<lambda>(p, d). (p, Some d))
                   (fst (download_generic_video env source
                      (print (''Downloading remote video from '' @ source @ ellipsis) w))))"
    if p: "urlparse env source = Inr parsed" and s: "scheme parsed \<in> {''http'', ''https''}" for parsed
  proof -
    have u: "is_url (urlparse env) source = Inr True" using p s by (simp add: is_url_def)
    have y: "is_youtube_url (urlparse env) source
             = Inr (contains (lower (netloc parsed)) ''youtube.com'' \<or> contains (lower (netloc parsed)) ''youtu.be'')"
      using p by (simp add: is_youtube_url_def Let_def)
    show ?thesis
      using u y
      by (auto simp: classify_def prepare_video_input_def split: prod.splits sum.splits)
  qed
  have three: "is_url (urlparse env) source = Inr False \<longleftrightarrow>
        (\<exists>m. urlparse env source = Inl (ValueError m))
        \<or> (\<exists>parsed. urlparse env source = Inr parsed \<and> scheme parsed \<notin> {''http'', ''https''})"
    by (auto simp: is_url_def split: sum.splits error.splits)
  from one two three show ?thesis by blast
qed

theorem classify_three_way_witness:
  "classify demo_env ''/home/me/clip.mp4'' = Inr (Local ''/home/me/clip.mp4'')
   \<and> classify demo_env ''ftp://example.com/clip.mp4'' = Inr (Local ''ftp://example.com/clip.mp4'')
   \<and> classify demo_env ''https://[example.com/clip.mp4'' = Inr (Local ''https://[example.com/clip.mp4'')
   \<and> urlparse demo_env ''https://www.YouTube.com/watch?v=abc''
     = Inr \<lparr>scheme = ''https'', netloc = ''www.YouTube.com'', url_path = ''/watch''\<rparr>
   \<and> classify demo_env ''https://www.YouTube.com/watch?v=abc''
     = Inr (PlatformHosted ''https://www.YouTube.com/watch?v=abc'')
   \<and> urlparse demo_env ''http://example.com/clip.mp4''
     = Inr \<lparr>scheme = ''http'', netloc = ''example.com'', url_path = ''/clip.mp4''\<rparr>
   \<and> classify demo_env ''http://example.com/clip.mp4'' = Inr (RemoteFile ''http://example.com/clip.mp4'')"
proof -
  have l1: "is_url (urlparse demo_env) ''/home/me/clip.mp4'' = Inr False" by code_simp
  have l2: "is_url (urlparse demo_env) ''ftp://example.com/clip.mp4'' = Inr False" by code_simp
  have l3: "is_url (urlparse demo_env) ''https://[example.com/clip.mp4'' = Inr False" by code_simp
  have y: "urlparse demo_env ''https://www.YouTube.com/watch?v=abc''
     = Inr \<lparr>scheme = ''https'', netloc = ''www.YouTube.com'', url_path = ''/watch''\<rparr>" by code_simp
  have yc: "contains (lower ''www.YouTube.com'') ''youtube.com''" by code_simp
  have r: "urlparse demo_env ''http://example.com/clip.mp4''
     = Inr \<lparr>scheme = ''http'', netloc = ''example.com'', url_path = ''/clip.mp4''\<rparr>" by code_simp
  have rc: "\<not> (contains (lower ''example.com'') ''youtube.com'' \<or> contains (lower ''example.com'') ''youtu.be'')"
    by code_simp
  show ?thesis
    using classify_three_way[of demo_env "''/home/me/clip.mp4''" None None demo_world] l1
      classify_three_way[of demo_env "''ftp://example.com/clip.mp4''" None None demo_world] l2
      classify_three_way[of demo_env "''https://[example.com/clip.mp4''" None None demo_world] l3
      classify_three_way[of demo_env "''https://www.YouTube.com/watch?v=abc''" None None demo_world] y yc
      classify_three_way[of demo_env "''http://example.com/clip.mp4''" None None demo_world] r rc
    by (simp del: contains.simps)
qed

subsection \<open>Filesystem facts\<close>

lemma map_of_filter_key:
  "map_of (filter (\<lambda>(k, v). P k) xs) q = (if P q then map_of xs q else None)"
  by (induction xs) auto

lemma lookup_unlink: "fs_lookup (unlink f p) q = (if q = p then None else fs_lookup f q)"
  using map_of_filter_key[of "\<lambda>k. k \<noteq> p" f q] by (simp add: fs_lookup_def unlink_def)

lemma lookup_rmtree:
  "fs_lookup (rmtree f d) q = (if q = d \<or> inside d q then None else fs_lookup f q)"
  using map_of_filter_key[of "\<lambda>k. k \<noteq> d \<and> \<not> inside d k" f q]
  by (simp add: fs_lookup_def rmtree_def)

lemma lookup_write_file:
  "fs_lookup (write_file f p c) q = (if q = p then Some (File c) else fs_lookup f q)"
  using lookup_unlink[of f p q] by (simp add: fs_lookup_def write_file_def)

lemma lookup_mkdir_if_absent:
  "fs_lookup (mkdir_if_absent p f) q
   = (if q = p \<and> fs_lookup f p = None then Some Dir else fs_lookup f q)"
  by (simp add: mkdir_if_absent_def path_exists_def fs_lookup_def)

lemma lookup_makedirs_kept:
  "fs_lookup f q = Some n \<Longrightarrow> fs_lookup (fold mkdir_if_absent ps f) q = Some n"
proof (induction ps arbitrary: f)
  case Nil
  then show ?case by simp
next
  case (Cons p ps)
  from Cons.prems have "fs_lookup (mkdir_if_absent p f) q = Some n"
    by (auto simp: lookup_mkdir_if_absent)
  then show ?case using Cons.IH by simp
qed

lemma inside_join: "inside d (d @ ''/'' @ name)"
  by (simp add: inside_def)

lemma inside_trans: "inside (d @ ''/'' @ name) q \<Longrightarrow> inside d q"
proof -
  assume "inside (d @ ''/'' @ name) q"
  then have "take (Suc (length (d @ ''/'' @ name))) q = (d @ ''/'' @ name) @ ''/''"
    by (simp add: inside_def)
  then have "take (Suc (length d)) (take (Suc (length (d @ ''/'' @ name))) q)
             = take (Suc (length d)) ((d @ ''/'' @ name) @ ''/'')"
    by simp
  then show ?thesis by (simp add: inside_def min_def)
qed

lemma path_join_plain:
  "d \<noteq> [] \<Longrightarrow> last d \<noteq> CHR ''/'' \<Longrightarrow> CHR ''/'' \<notin> set name \<Longrightarrow> path_join d name = d @ ''/'' @ name"
  by (cases name) (auto simp: path_join_def)

lemma listdir_no_slash: "name \<in> set (listdir f d) \<Longrightarrow> CHR ''/'' \<notin> set name"
  by (auto simp: listdir_def)

lemma lookup_clean_child:
  assumes "d \<noteq> []" "last d \<noteq> CHR ''/''" "CHR ''/'' \<notin> set name" "q \<noteq> d" "\<not> inside d q"
  shows "fs_lookup (clean_child d name f) q = fs_lookup f q"
proof -
  have j: "path_join d name = d @ ''/'' @ name" using assms by (simp add: path_join_plain)
  have "q \<noteq> d @ ''/'' @ name" using assms(5) inside_join by blast
  moreover have "\<not> inside (d @ ''/'' @ name) q" using assms(5) inside_trans by blast
  ultimately show ?thesis
    by (simp add: clean_child_def j Let_def lookup_unlink lookup_rmtree)
qed

lemma lookup_fold_clean_child:
  assumes "d \<noteq> []" "last d \<noteq> CHR ''/''" "\<forall>name \<in> set names. CHR ''/'' \<notin> set name"
    "q \<noteq> d" "\<not> inside d q"
  shows "fs_lookup (fold (clean_child d) names f) q = fs_lookup f q"
  using assms(3)
proof (induction names arbitrary: f)
  case Nil
  then show ?case by simp
next
  case (Cons name names)
  then show ?case using lookup_clean_child[OF assms(1,2) _ assms(4,5)] by simp
qed

lemma frame_folder_shape: "FRAME_FOLDER \<noteq> []" "last FRAME_FOLDER \<noteq> CHR ''/''"
  by (simp_all add: FRAME_FOLDER_def)

lemma ensure_clean_dir_keeps:
  assumes "fs_lookup (fs w) q = Some n" "q \<noteq> FRAME_FOLDER" "\<not> inside FRAME_FOLDER q"
  shows "fs_lookup (fs (ensure_clean_dir FRAME_FOLDER w)) q = Some n"
proof -
  let ?f = "makedirs (fs w) FRAME_FOLDER"
  have "fs_lookup ?f q = Some n"
    unfolding makedirs_def using assms(1) by (rule lookup_makedirs_kept)
  moreover have "fs_lookup (fold (clean_child FRAME_FOLDER) (listdir ?f FRAME_FOLDER) ?f) q
                 = fs_lookup ?f q"
    using lookup_fold_clean_child[OF frame_folder_shape _ assms(2,3)] listdir_no_slash by blast
  ultimately show ?thesis by (simp add: ensure_clean_dir_def Let_def)
qed

lemma frame_path_inside: "inside FRAME_FOLDER (frame_path i)"
  by (simp add: frame_path_def frame_name_def path_join_def FRAME_FOLDER_def inside_def)

lemma frame_path_not_folder: "frame_path i \<noteq> FRAME_FOLDER"
  by (simp add: frame_path_def frame_name_def path_join_def FRAME_FOLDER_def)


lemma save_frame_lookup:
  "q \<noteq> frame_path (fst saved) \<Longrightarrow> fs_lookup (fs (save_frame env saved w)) q = fs_lookup (fs w) q"
  by (simp add: save_frame_def Let_def fs_print lookup_write_file)



lemma transcription_attempt_fs: "fs (snd (transcription_attempt env m p w)) = fs w"
  by (simp add: transcription_attempt_def split: option.splits node.splits)

lemma transcribe_audio_fs: "fs (snd (transcribe_audio env p w)) = fs w"
proof (cases "transcription_attempt env Gpt4oTranscribe p w")
  case (Pair r w1)
  then have w1: "fs w1 = fs w" using transcription_attempt_fs[of env Gpt4oTranscribe p w] by simp
  show ?thesis
    by (cases r) (simp_all add: transcribe_audio_def Pair transcription_attempt_fs fs_print w1)
qed

lemma extract_audio_lookup:
  assumes "q \<noteq> OUTPUT_AUDIO_PATH"
  shows "fs_lookup (fs (snd (extract_audio_and_transcribe env video_path w))) q = fs_lookup (fs w) q"
proof -
  have t: "fs_lookup (fs w') q = fs_lookup (fs w) q"
    if "transcribe_audio env OUTPUT_AUDIO_PATH (w\<lparr>fs := write_file (fs w) OUTPUT_AUDIO_PATH wav\<rparr>)
        = (r, w')" for wav r w'
    using assms that
      transcribe_audio_fs[of env OUTPUT_AUDIO_PATH "w\<lparr>fs := write_file (fs w) OUTPUT_AUDIO_PATH wav\<rparr>"]
    by (simp add: lookup_write_file)
  show ?thesis
    using assms t
    by (auto simp: extract_audio_and_transcribe_def Let_def fs_print lookup_unlink
          split: sum.splits option.splits prod.splits)
qed






lemma lookup_cleanup_path_gone:
  "p \<noteq> [] \<Longrightarrow> fs_lookup (cleanup_path (Some p) f) p = None"
  by (auto simp: cleanup_path_def lookup_rmtree lookup_unlink path_exists_def)

lemma lookup_cleanup_path_none:
  "fs_lookup f q = None \<Longrightarrow> fs_lookup (cleanup_path path f) q = None"
  by (cases path) (simp_all add: cleanup_path_def lookup_rmtree lookup_unlink path_exists_def)


subsection \<open>What the frame directory lists\<close>

lemma lookup_none_iff: "fs_lookup g q = None \<longleftrightarrow> q \<notin> fst ` set g"
  by (simp add: fs_lookup_def map_of_eq_None_iff)

lemma inside_iff: "inside d q \<longleftrightarrow> (\<exists>name. q = d @ ''/'' @ name)"
proof
  assume "inside d q"
  then have "q = (d @ ''/'') @ drop (Suc (length d)) q"
    unfolding inside_def by (metis append_take_drop_id)
  then show "\<exists>name. q = d @ ''/'' @ name" by auto
next
  assume "\<exists>name. q = d @ ''/'' @ name"
  then show "inside d q" by (auto simp: inside_def)
qed

lemma set_listdir:
  "set (listdir g d) = {name. CHR ''/'' \<notin> set name \<and> d @ ''/'' @ name \<in> fst ` set g}"
proof (intro set_eqI iffI)
  fix name
  assume "name \<in> set (listdir g d)"
  then obtain q n where q: "(q, n) \<in> set g" "inside d q" "name = drop (Suc (length d)) q"
    "CHR ''/'' \<notin> set name"
    by (auto simp: listdir_def)
  from q(2) obtain nm where "q = d @ ''/'' @ nm" unfolding inside_iff by blast
  with q(3) have "q = d @ ''/'' @ name" by simp
  with q(1,4) show "name \<in> {name. CHR ''/'' \<notin> set name \<and> d @ ''/'' @ name \<in> fst ` set g}"
    by force
next
  fix name
  assume "name \<in> {name. CHR ''/'' \<notin> set name \<and> d @ ''/'' @ name \<in> fst ` set g}"
  then obtain n where "(d @ ''/'' @ name, n) \<in> set g" "CHR ''/'' \<notin> set name" by auto
  then show "name \<in> set (listdir g d)"
    by (force simp: listdir_def inside_def)
qed

lemma keys_unlink: "fst ` set (unlink g p) = fst ` set g - {p}"
  by (force simp: unlink_def)

lemma keys_rmtree: "fst ` set (rmtree g d) = fst ` set g - {q. q = d \<or> inside d q}"
  by (force simp: rmtree_def)

lemma keys_clean_child:
  assumes "d \<noteq> []" "last d \<noteq> CHR ''/''" "CHR ''/'' \<notin> set name"
  shows "fst ` set (clean_child d name g) \<subseteq> fst ` set g"
    and "d @ ''/'' @ name \<notin> fst ` set (clean_child d name g)"
proof -
  have j: "path_join d name = d @ ''/'' @ name" using assms by (rule path_join_plain)
  show "fst ` set (clean_child d name g) \<subseteq> fst ` set g"
    by (auto simp: clean_child_def Let_def keys_unlink keys_rmtree)
  show "d @ ''/'' @ name \<notin> fst ` set (clean_child d name g)"
  proof (cases "fs_lookup g (d @ ''/'' @ name)")
    case None
    then have "d @ ''/'' @ name \<notin> fst ` set g" using lookup_none_iff by blast
    moreover have "clean_child d name g = g"
      using None by (simp add: clean_child_def j Let_def isfile_def isdir_def)
    ultimately show ?thesis by simp
  next
    case (Some n)
    then show ?thesis
      by (cases n) (simp_all add: clean_child_def j Let_def isfile_def isdir_def keys_unlink keys_rmtree)
  qed
qed

lemma keys_fold_clean_child:
  assumes "d \<noteq> []" "last d \<noteq> CHR ''/''" "\<forall>name \<in> set names. CHR ''/'' \<notin> set name"
  shows "fst ` set (fold (clean_child d) names g) \<subseteq> fst ` set g
         \<and> (\<forall>name \<in> set names. d @ ''/'' @ name \<notin> fst ` set (fold (clean_child d) names g))"
  using assms(3)
proof (induction names arbitrary: g)
  case Nil
  then show ?case by simp
next
  case (Cons x xs)
  have x: "CHR ''/'' \<notin> set x" using Cons.prems by simp
  note step = keys_clean_child[OF assms(1,2) x, of g]
  have ih: "fst ` set (fold (clean_child d) xs (clean_child d x g)) \<subseteq> fst ` set (clean_child d x g)
         \<and> (\<forall>name \<in> set xs. d @ ''/'' @ name \<notin> fst ` set (fold (clean_child d) xs (clean_child d x g)))"
    using Cons.IH[of "clean_child d x g"] Cons.prems by simp
  let ?g2 = "fold (clean_child d) xs (clean_child d x g)"
  have a: "fst ` set ?g2 \<subseteq> fst ` set g" using ih step(1) by blast
  have b: "d @ ''/'' @ x \<notin> fst ` set ?g2" using ih step(2) by blast
  have c: "\<forall>name \<in> set xs. d @ ''/'' @ name \<notin> fst ` set ?g2" using ih by blast
  show ?case using a b c by simp
qed

lemma listdir_ensure_clean_dir:
  assumes "d \<noteq> []" "last d \<noteq> CHR ''/''"
  shows "listdir (fs (ensure_clean_dir d w)) d = []"
proof -
  let ?f = "makedirs (fs w) d"
  let ?g = "fold (clean_child d) (listdir ?f d) ?f"
  note inv = keys_fold_clean_child[OF assms, of "listdir ?f d" ?f]
  have "set (listdir ?g d) = {}"
  proof (rule ccontr)
    assume "set (listdir ?g d) \<noteq> {}"
    then obtain name where n: "CHR ''/'' \<notin> set name" "d @ ''/'' @ name \<in> fst ` set ?g"
      unfolding set_listdir by blast
    then have "d @ ''/'' @ name \<in> fst ` set ?f" using inv listdir_no_slash by blast
    with n(1) have "name \<in> set (listdir ?f d)" unfolding set_listdir by blast
    then show False using inv n(2) listdir_no_slash by blast
  qed
  then show ?thesis by (simp add: ensure_clean_dir_def Let_def)
qed

lemma listdir_unlink:
  assumes "CHR ''/'' \<notin> set name"
  shows "listdir (unlink g (d @ ''/'' @ name)) d = filter (\<lambda>nm. nm \<noteq> name) (listdir g d)"
proof (induction g)
  case Nil
  then show ?case by (simp add: listdir_def unlink_def)
next
  case (Cons e g)
  obtain q n where e: "e = (q, n)" by (cases e)
  have ih: "listdir (unlink g (d @ ''/'' @ name)) d = filter (\<lambda>nm. nm \<noteq> name) (listdir g d)"
    by (rule Cons.IH)
  have cons: "listdir ((q, n) # h) d
              = (if inside d q \<and> CHR ''/'' \<notin> set (drop (Suc (length d)) q)
                 then [drop (Suc (length d)) q] else []) @ listdir h d" for h
    by (simp add: listdir_def)
  have key: "inside d q \<Longrightarrow> (q = d @ ''/'' @ name \<longleftrightarrow> drop (Suc (length d)) q = name)"
    unfolding inside_iff by auto
  show ?case
  proof (cases "q = d @ ''/'' @ name")
    case True
    then have "unlink (e # g) (d @ ''/'' @ name) = unlink g (d @ ''/'' @ name)"
      by (simp add: unlink_def e)
    moreover have "inside d q" "drop (Suc (length d)) q = name" using True by (simp_all add: inside_def)
    ultimately show ?thesis using ih assms by (simp add: e cons)
  next
    case False
    then have "unlink (e # g) (d @ ''/'' @ name) = e # unlink g (d @ ''/'' @ name)"
      by (simp add: unlink_def e)
    then show ?thesis using ih False key by (auto simp: e cons)
  qed
qed

lemma listdir_write_file:
  assumes "CHR ''/'' \<notin> set name"
  shows "listdir (write_file g (d @ ''/'' @ name) c) d = name # filter (\<lambda>nm. nm \<noteq> name) (listdir g d)"
  using assms listdir_unlink[OF assms, of g d]
  by (simp add: write_file_def listdir_def inside_def del: append_assoc)


lemma digit_char_not_slash: "d < 10 \<Longrightarrow> digit_char d \<noteq> CHR ''/''"
proof
  assume d: "d < 10" and "digit_char d = CHR ''/''"
  then have "(of_char (digit_char d) :: nat) = of_char (CHR ''/'')" by simp
  then show False using d by (simp add: digit_char_def)
qed

lemma dec_digits_no_slash: "CHR ''/'' \<notin> set (dec_digits f n)"
proof (induction f arbitrary: n)
  case 0
  then show ?case by simp
next
  case (Suc f)
  have a: "n < 10 \<Longrightarrow> CHR ''/'' \<noteq> digit_char n"
    using digit_char_not_slash[of n] by metis
  have b: "CHR ''/'' \<noteq> digit_char (n mod 10)"
    using digit_char_not_slash[of "n mod 10"] by (metis mod_less_divisor zero_less_numeral)
  show ?case using Suc.IH[of "n div 10"] a b by simp
qed

lemma frame_name_no_slash: "CHR ''/'' \<notin> set (frame_name i)"
  by (auto simp: frame_name_def fmt_07d_def zero_pad_def str_nat_def dec_digits_no_slash
        simp del: dec_digits.simps)

lemma frame_path_eq: "frame_path i = FRAME_FOLDER @ ''/'' @ frame_name i"
  unfolding frame_path_def
  by (rule path_join_plain[OF frame_folder_shape frame_name_no_slash])

lemma listdir_save_frame:
  "listdir (fs (save_frame env saved w)) FRAME_FOLDER
   = frame_name (fst saved) # filter (\<lambda>nm. nm \<noteq> frame_name (fst saved)) (listdir (fs w) FRAME_FOLDER)"
  using listdir_write_file[OF frame_name_no_slash, of "fs w" FRAME_FOLDER "fst saved"]
  by (simp add: save_frame_def Let_def fs_print frame_path_eq)

lemma listdir_fold_save_frame:
  "set (listdir (fs (fold (save_frame env) saved w)) FRAME_FOLDER)
     = set (listdir (fs w) FRAME_FOLDER) \<union> frame_name ` fst ` set saved
   \<and> (distinct (listdir (fs w) FRAME_FOLDER)
        \<longrightarrow> distinct (listdir (fs (fold (save_frame env) saved w)) FRAME_FOLDER))"
proof (induction saved arbitrary: w)
  case Nil
  then show ?case by simp
next
  case (Cons s saved)
  have one: "set (listdir (fs (save_frame env s w)) FRAME_FOLDER)
             = insert (frame_name (fst s)) (set (listdir (fs w) FRAME_FOLDER))"
    by (auto simp: listdir_save_frame)
  have two: "distinct (listdir (fs w) FRAME_FOLDER)
             \<Longrightarrow> distinct (listdir (fs (save_frame env s w)) FRAME_FOLDER)"
    by (simp add: listdir_save_frame)
  show ?case using Cons.IH[of "save_frame env s w"] one two by auto
qed

lemma extract_frames_listing:
  assumes "VideoCapture env (fs (ensure_clean_dir FRAME_FOLDER w)) video_path = Some cap"
  shows "set (listdir (fs (extract_frames env video_path interval_sec start_sec end_sec w)) FRAME_FOLDER)
           = frame_name ` fst ` set (sampled_frames cap interval_sec start_sec end_sec)
         \<and> distinct (listdir (fs (extract_frames env video_path interval_sec start_sec end_sec w)) FRAME_FOLDER)"
proof -
  let ?w1 = "ensure_clean_dir FRAME_FOLDER w"
  let ?w2 = "if window_warning start_sec end_sec
             then print ''End timestamp must be greater than start; processing full video instead.'' ?w1
             else ?w1"
  have fsw2: "fs ?w2 = fs ?w1" by (simp add: fs_print)
  have empty: "listdir (fs ?w2) FRAME_FOLDER = []"
    unfolding fsw2 by (rule listdir_ensure_clean_dir[OF frame_folder_shape])
  have ex: "extract_frames env video_path interval_sec start_sec end_sec w
            = fold (save_frame env) (sampled_frames cap interval_sec start_sec end_sec) ?w2"
    using assms by (simp add: extract_frames_def Let_def fs_print)
  show ?thesis
    unfolding ex
    using listdir_fold_save_frame[of env "sampled_frames cap interval_sec start_sec end_sec" ?w2]
    by (simp only: empty set_simps Un_empty_left distinct.simps simp_thms)
qed

lemma sample_loop_contents:
  "sample_loop fps send skip start idx xs
   = map (\<lambda>i. (i, xs ! nat (i - start - idx))) (map fst (sample_loop fps send skip start idx xs))"
proof -
  have "p = (fst p, xs ! nat (fst p - start - idx))"
    if "p \<in> set (sample_loop fps send skip start idx xs)" for p
  proof -
    obtain i f where p: "p = (i, f)" by (cases p)
    with that sample_loop_frame[of i f fps send skip start idx xs]
    obtain k where "k < length xs" "i = start + idx + int k" "f = xs ! k" by blast
    then show ?thesis by (simp add: p)
  qed
  then have "map (\<lambda>p. (fst p, xs ! nat (fst p - start - idx))) (sample_loop fps send skip start idx xs)
             = map (\<lambda>p. p) (sample_loop fps send skip start idx xs)"
    by (intro map_cong) simp_all
  then show ?thesis by (simp add: o_def)
qed

subsection \<open>The two-to-five-second window\<close>

text \<open>
  C3: on a stream of 300 frames at 30 frames per second (ten seconds), the window from 2 to
  5 seconds with the half-second interval saves exactly six frames: the frames 60, 75,
  ..., 135 of the stream, one stride (15 frames) apart from the 2-second mark, each
  under its own index, and every saved frame has a timestamp from 2 up to but not
  including 5 seconds. After \<^verbatim>\<open>extract_frames\<close> the frame directory lists exactly the six
  files of these frames.
\<close>

theorem sampler_two_to_five:
  assumes "cap_fps cap = 30" and "length (cap_frames cap) = 300"
  shows "sampled_frames cap (1 / 2) 2 (Some 5)
         = map (\<lambda>i. (int i, cap_frames cap ! i)) [60, 75, 90, 105, 120, 135]
         \<and> length (sampled_frames cap (1 / 2) 2 (Some 5)) = 6
         \<and> (\<forall>(i, f) \<in> set (sampled_frames cap (1 / 2) 2 (Some 5)). 2 \<le> rat_of_int i / 30 \<and> rat_of_int i / 30 < 5)
         \<and> (\<forall>env w video_path.
               VideoCapture env (fs (ensure_clean_dir FRAME_FOLDER w)) video_path = Some cap \<longrightarrow>
               sort (listdir (fs (extract_frames env video_path (1 / 2) 2 (Some 5) w)) FRAME_FOLDER)
               = [''frame_0000060.jpg'', ''frame_0000075.jpg'', ''frame_0000090.jpg'',
                  ''frame_0000105.jpg'', ''frame_0000120.jpg'', ''frame_0000135.jpg''])"
proof -
  have skip: "frame_skip 30 (1 / 2) = 15" by code_simp
  have st: "safe_start 2 = 2" by (simp add: safe_start_def)
  have se: "safe_end 2 (Some 5) = Some 5" by (simp add: safe_end_def st)
  have pos: "nat (py_int (2 * 1000 * 30 / 1000)) = 60" by (simp add: py_int_def)
  have sfi: "start_frame_idx (of_nat 60) 2 30 = 60" by (simp add: start_frame_idx_def py_int_def)
  have fr: "map (\<lambda>_. []) (drop 60 (cap_frames cap)) = replicate 240 []"
    using assms(2) by (simp add: map_replicate_const)
  have sf: "sampled_frames cap (1 / 2) 2 (Some 5)
            = sample_loop 30 (Some 5) 15 60 0 (drop 60 (cap_frames cap))"
    using skip st se pos sfi assms(1)
    by (simp add: sampled_frames_def Let_def fps_or_default_def cap_set_pos_msec_def)
  have "map fst (sample_loop 30 (Some 5) 15 60 0 (drop 60 (cap_frames cap)))
        = map fst (sample_loop 30 (Some 5) 15 60 0 (replicate 240 []))"
    by (subst map_fst_sample_loop) (simp only: fr)
  then have idx: "map fst (sample_loop 30 (Some 5) 15 60 0 (drop 60 (cap_frames cap)))
                  = [60, 75, 90, 105, 120, 135]"
    by (simp only: sample_loop_30_2_5)
  have eq: "sampled_frames cap (1 / 2) 2 (Some 5)
            = map (\<lambda>i. (int i, cap_frames cap ! i)) [60, 75, 90, 105, 120, 135]"
    unfolding sf
    by (subst sample_loop_contents) (simp add: idx assms(2))
  have fsts: "fst ` set (sampled_frames cap (1 / 2) 2 (Some 5)) = set [60, 75, 90, 105, 120, 135]"
    unfolding eq by simp
  let ?names = "map frame_name [60, 75, 90, 105, 120, 135]"
  have names: "?names = [''frame_0000060.jpg'', ''frame_0000075.jpg'', ''frame_0000090.jpg'',
                  ''frame_0000105.jpg'', ''frame_0000120.jpg'', ''frame_0000135.jpg'']"
    by code_simp
  have strict: "sorted_wrt (<) ?names"
    by (rule frame_names_sorted) simp_all
  have files: "sort (listdir (fs (extract_frames env video_path (1 / 2) 2 (Some 5) w)) FRAME_FOLDER)
               = ?names"
    if "VideoCapture env (fs (ensure_clean_dir FRAME_FOLDER w)) video_path = Some cap"
    for env w video_path
  proof -
    let ?l = "listdir (fs (extract_frames env video_path (1 / 2) 2 (Some 5) w)) FRAME_FOLDER"
    note l = extract_frames_listing[OF that, of "1 / 2" 2 "Some 5"]
    have "set (sort ?l) = set ?names" using l fsts by (simp only: set_sort set_map)
    moreover have "distinct (sort ?l)" using l by simp
    moreover have "sorted (sort ?l)" by simp
    moreover have "sorted ?names" "distinct ?names" using strict by (simp_all only: strict_sorted_iff)
    ultimately show ?thesis by (intro sorted_distinct_set_unique)
  qed
  have times: "\<forall>(i, f) \<in> set (sampled_frames cap (1 / 2) 2 (Some 5)).
                 2 \<le> rat_of_int i / 30 \<and> rat_of_int i / 30 < 5"
    unfolding eq by simp
  have len: "length (sampled_frames cap (1 / 2) 2 (Some 5)) = 6"
    unfolding eq by simp
  from eq len times files show ?thesis unfolding names by blast
qed

theorem sampler_two_to_five_witness:
  "cap_fps demo_video = 30 \<and> length (cap_frames demo_video) = 300
   \<and> sampled_frames demo_video (1 / 2) 2 (Some 5)
     = [(60, ''60''), (75, ''75''), (90, ''90''), (105, ''105''), (120, ''120''), (135, ''135'')]
   \<and> VideoCapture demo_env (fs (ensure_clean_dir FRAME_FOLDER demo_world)) ''long.mp4''
     = Some demo_video
   \<and> sort (listdir (fs (extract_frames demo_env ''long.mp4'' (1 / 2) 2 (Some 5) demo_world)) FRAME_FOLDER)
     = [''frame_0000060.jpg'', ''frame_0000075.jpg'', ''frame_0000090.jpg'',
        ''frame_0000105.jpg'', ''frame_0000120.jpg'', ''frame_0000135.jpg'']"
proof -
  have a: "cap_fps demo_video = 30" by (simp add: demo_video_def)
  have b: "length (cap_frames demo_video) = 300" by (simp add: demo_video_def)
  have c: "map (\<lambda>i. cap_frames demo_video ! i) [60, 75, 90, 105, 120, 135]
           = [''60'', ''75'', ''90'', ''105'', ''120'', ''135'']"
    by code_simp
  have e: "sampled_frames demo_video (1 / 2) 2 (Some 5)
     = [(60, ''60''), (75, ''75''), (90, ''90''), (105, ''105''), (120, ''120''), (135, ''135'')]"
    using sampler_two_to_five[OF a b, THEN conjunct1] c by simp
  have "fs_lookup (fs demo_world) ''long.mp4'' = Some (File ''LONG'')"
    by (simp add: demo_world_def fs_lookup_def)
  then have "fs_lookup (fs (ensure_clean_dir FRAME_FOLDER demo_world)) ''long.mp4'' = Some (File ''LONG'')"
    by (rule ensure_clean_dir_keeps) (simp_all add: FRAME_FOLDER_def inside_def)
  then have d: "VideoCapture demo_env (fs (ensure_clean_dir FRAME_FOLDER demo_world)) ''long.mp4''
                = Some demo_video"
    by (simp add: VideoCapture_def demo_env_def)
  note files = sampler_two_to_five[OF a b, THEN conjunct2, THEN conjunct2, THEN conjunct2,
      rule_format, OF d]
  from a b e d files show ?thesis by (intro conjI)
qed

subsection \<open>The frames a run submits\<close>

lemma sample_loop_ascending: "sorted_wrt (<) (map fst (sample_loop fps send skip start idx xs))"
proof (induction xs arbitrary: idx)
  case Nil
  then show ?case by simp
next
  case (Cons x xs)
  have later: "start + idx < i" if "i \<in> fst ` set (sample_loop fps send skip start (idx + 1) xs)" for i
  proof -
    from that obtain f where "(i, f) \<in> set (sample_loop fps send skip start (idx + 1) xs)" by auto
    from sample_loop_frame[OF this] show ?thesis by auto
  qed
  show ?case using Cons.IH[of "idx + 1"] later by (auto simp: Let_def)
qed

lemma sampled_frames_ascending:
  "sorted_wrt (<) (map fst (sampled_frames cap interval_sec start_sec end_sec))"
  by (simp add: sampled_frames_def Let_def sample_loop_ascending)

lemma frame_path_inj:
  assumes "0 \<le> i" "i < 10 ^ 7" "0 \<le> j" "j < 10 ^ 7" "frame_path i = frame_path j"
  shows "i = j"
proof (rule ccontr)
  assume "i \<noteq> j"
  then consider "i < j" | "j < i" by linarith
  then have "frame_name i \<noteq> frame_name j"
  proof cases
    case 1
    then show ?thesis using frame_name_less[OF assms(1) 1 assms(4)] by simp
  next
    case 2
    then show ?thesis using frame_name_less[OF assms(3) 2 assms(2)] by simp
  qed
  then show False using assms(5) by (simp add: frame_path_eq)
qed

lemma fold_save_frame_other:
  assumes "\<forall>s \<in> set saved. frame_path (fst s) \<noteq> q"
  shows "fs_lookup (fs (fold (save_frame env) saved w)) q = fs_lookup (fs w) q"
  using assms
proof (induction saved arbitrary: w)
  case Nil
  then show ?case by simp
next
  case (Cons s saved)
  from Cons.prems have "q \<noteq> frame_path (fst s)" by auto
  then have "fs_lookup (fs (save_frame env s w)) q = fs_lookup (fs w) q"
    by (rule save_frame_lookup)
  then show ?case using Cons.IH[of "save_frame env s w"] Cons.prems by simp
qed

lemma fold_save_frame_content:
  assumes "distinct (map fst saved)" "\<forall>i \<in> fst ` set saved. 0 \<le> i \<and> i < 10 ^ 7"
    "(i, frame) \<in> set saved"
  shows "fs_lookup (fs (fold (save_frame env) saved w)) (frame_path i)
         = Some (File (jpg_encode env frame))"
  using assms
proof (induction saved arbitrary: w)
  case Nil
  then show ?case by simp
next
  case (Cons s saved)
  show ?case
  proof (cases "s = (i, frame)")
    case True
    have "\<forall>t \<in> set saved. frame_path (fst t) \<noteq> frame_path i"
    proof
      fix t
      assume t: "t \<in> set saved"
      then have "fst t \<noteq> i" using Cons.prems(1) True by force
      moreover have "0 \<le> fst t \<and> fst t < 10 ^ 7" "0 \<le> i \<and> i < 10 ^ 7"
        using Cons.prems(2) t True by auto
      ultimately show "frame_path (fst t) \<noteq> frame_path i" using frame_path_inj by blast
    qed
    then have "fs_lookup (fs (fold (save_frame env) saved (save_frame env s w))) (frame_path i)
               = fs_lookup (fs (save_frame env s w)) (frame_path i)"
      by (rule fold_save_frame_other)
    moreover have "fs_lookup (fs (save_frame env s w)) (frame_path i)
                   = Some (File (jpg_encode env frame))"
      using True by (simp add: save_frame_def Let_def fs_print lookup_write_file)
    ultimately show ?thesis by simp
  next
    case False
    then have "(i, frame) \<in> set saved" using Cons.prems(3) by simp
    then show ?thesis using Cons.IH[of "save_frame env s w"] Cons.prems(1,2) by simp
  qed
qed

lemma listdir_unlink_outside: "\<not> inside d p \<Longrightarrow> listdir (unlink g p) d = listdir g d"
proof (induction g)
  case Nil
  then show ?case by (simp add: unlink_def)
next
  case (Cons e g)
  obtain q n where e: "e = (q, n)" by (cases e)
  have cons: "listdir ((q, n) # h) d
              = (if inside d q \<and> CHR ''/'' \<notin> set (drop (Suc (length d)) q)
                 then [drop (Suc (length d)) q] else []) @ listdir h d" for h
    by (simp add: listdir_def)
  have ih: "listdir (unlink g p) d = listdir g d" using Cons by simp
  show ?case
  proof (cases "q = p")
    case True
    then have "unlink (e # g) p = unlink g p" by (simp add: unlink_def e)
    moreover have "listdir ((p, n) # g) d = listdir g d"
      using Cons.prems by (simp add: listdir_def)
    ultimately show ?thesis using ih True by (simp add: e)
  next
    case False
    then have "unlink (e # g) p = e # unlink g p" by (simp add: unlink_def e)
    then show ?thesis using ih by (simp add: e cons)
  qed
qed

lemma listdir_write_file_outside: "\<not> inside d p \<Longrightarrow> listdir (write_file g p c) d = listdir g d"
  using listdir_unlink_outside[of d p g] by (simp add: write_file_def listdir_def)


lemma extract_audio_fs_cases:
  "fs (snd (extract_audio_and_transcribe env video_path w)) = fs w
   \<or> (\<exists>wav. fs (snd (extract_audio_and_transcribe env video_path w))
          = write_file (fs w) OUTPUT_AUDIO_PATH wav)
   \<or> (\<exists>wav. fs (snd (extract_audio_and_transcribe env video_path w))
          = unlink (write_file (fs w) OUTPUT_AUDIO_PATH wav) OUTPUT_AUDIO_PATH)"
proof (cases "VideoFileClip env (fs w) video_path")
  case (Inl e)
  then show ?thesis by (simp add: extract_audio_and_transcribe_def)
next
  case (Inr c)
  note clip = Inr
  show ?thesis
  proof (cases "clip_audio c")
    case None
    then show ?thesis using clip by (simp add: extract_audio_and_transcribe_def fs_print)
  next
    case (Some track)
    note tr = Some
    show ?thesis
    proof (cases "wav_encode env track")
      case (Inl e)
      then show ?thesis using clip tr by (simp add: extract_audio_and_transcribe_def)
    next
      case (Inr wav)
      let ?w = "w\<lparr>fs := write_file (fs w) OUTPUT_AUDIO_PATH wav\<rparr>"
      obtain r w1 where t: "transcribe_audio env OUTPUT_AUDIO_PATH ?w = (r, w1)"
        by (cases "transcribe_audio env OUTPUT_AUDIO_PATH ?w")
      have w1: "fs w1 = write_file (fs w) OUTPUT_AUDIO_PATH wav"
        using transcribe_audio_fs[of env OUTPUT_AUDIO_PATH ?w] t by simp
      show ?thesis
      proof (cases r)
        case (Inl e)
        then have "fs (snd (extract_audio_and_transcribe env video_path w)) = fs w1"
          using clip tr Inr t by (simp add: extract_audio_and_transcribe_def)
        then show ?thesis using w1 by auto
      next
        case (Inr transcript')
        then have "fs (snd (extract_audio_and_transcribe env video_path w))
                   = unlink (fs w1) OUTPUT_AUDIO_PATH"
          using clip tr \<open>wav_encode env track = Inr wav\<close> t
          by (simp add: extract_audio_and_transcribe_def Let_def fs_print)
        then show ?thesis using w1 by auto
      qed
    qed
  qed
qed

lemma audio_path_outside: "\<not> inside FRAME_FOLDER OUTPUT_AUDIO_PATH"
  by code_simp

lemma extract_audio_listdir:
  "listdir (fs (snd (extract_audio_and_transcribe env video_path w))) FRAME_FOLDER
   = listdir (fs w) FRAME_FOLDER"
  using extract_audio_fs_cases[of env video_path w]
  by (auto simp: listdir_write_file_outside listdir_unlink_outside audio_path_outside)

lemma transcription_attempt_llm: "llm_calls (snd (transcription_attempt env m p w)) = llm_calls w"
  by (simp add: transcription_attempt_def split: option.splits node.splits)

lemma transcribe_audio_llm: "llm_calls (snd (transcribe_audio env p w)) = llm_calls w"
proof (cases "transcription_attempt env Gpt4oTranscribe p w")
  case (Pair r w1)
  then have w1: "llm_calls w1 = llm_calls w"
    using transcription_attempt_llm[of env Gpt4oTranscribe p w] by simp
  show ?thesis
    by (cases r) (simp_all add: transcribe_audio_def Pair transcription_attempt_llm llm_calls_print w1)
qed

lemma extract_audio_llm:
  "llm_calls (snd (extract_audio_and_transcribe env video_path w)) = llm_calls w"
proof (cases "VideoFileClip env (fs w) video_path")
  case (Inl e)
  then show ?thesis by (simp add: extract_audio_and_transcribe_def)
next
  case (Inr c)
  note clip = Inr
  show ?thesis
  proof (cases "clip_audio c")
    case None
    then show ?thesis using clip by (simp add: extract_audio_and_transcribe_def llm_calls_print)
  next
    case (Some track)
    note tr = Some
    show ?thesis
    proof (cases "wav_encode env track")
      case (Inl e)
      then show ?thesis using clip tr by (simp add: extract_audio_and_transcribe_def)
    next
      case (Inr wav)
      let ?w = "w\<lparr>fs := write_file (fs w) OUTPUT_AUDIO_PATH wav\<rparr>"
      obtain r w1 where t: "transcribe_audio env OUTPUT_AUDIO_PATH ?w = (r, w1)"
        by (cases "transcribe_audio env OUTPUT_AUDIO_PATH ?w")
      have w1: "llm_calls w1 = llm_calls w"
        using transcribe_audio_llm[of env OUTPUT_AUDIO_PATH ?w] t by simp
      show ?thesis
        using clip tr Inr t w1
        by (cases r) (simp_all add: extract_audio_and_transcribe_def Let_def llm_calls_print)
    qed
  qed
qed

lemma fold_save_frame_llm: "llm_calls (fold (save_frame env) saved w) = llm_calls w"
  by (induction saved arbitrary: w) (simp_all add: save_frame_def Let_def llm_calls_print)

lemma extract_frames_llm:
  "llm_calls (extract_frames env video_path interval_sec start_sec end_sec w) = llm_calls w"
  by (simp add: extract_frames_def Let_def ensure_clean_dir_def llm_calls_print fold_save_frame_llm
        split: option.splits)

lemma extract_frames_opened:
  assumes "VideoCapture env (fs (ensure_clean_dir FRAME_FOLDER w)) video_path = Some cap"
  shows "\<exists>w2. fs w2 = fs (ensure_clean_dir FRAME_FOLDER w)
           \<and> extract_frames env video_path interval_sec start_sec end_sec w
             = fold (save_frame env) (sampled_frames cap interval_sec start_sec end_sec) w2"
proof -
  let ?w1 = "ensure_clean_dir FRAME_FOLDER w"
  let ?w2 = "if window_warning start_sec end_sec
             then print ''End timestamp must be greater than start; processing full video instead.'' ?w1
             else ?w1"
  have "fs ?w2 = fs ?w1" by (simp add: fs_print)
  moreover have "extract_frames env video_path interval_sec start_sec end_sec w
            = fold (save_frame env) (sampled_frames cap interval_sec start_sec end_sec) ?w2"
    using assms by (simp add: extract_frames_def Let_def fs_print)
  ultimately show ?thesis by blast
qed


lemma gathered_after_sampling:
  assumes "VideoCapture env (fs (ensure_clean_dir FRAME_FOLDER w)) video_path = Some cap"
    and "\<forall>i \<in> fst ` set (sampled_frames cap interval_sec start_sec end_sec). 0 \<le> i \<and> i < 10 ^ 7"
    and "listdir f FRAME_FOLDER
         = listdir (fs (extract_frames env video_path interval_sec start_sec end_sec w)) FRAME_FOLDER"
    and "\<forall>q. inside FRAME_FOLDER q \<longrightarrow>
           fs_lookup f q
           = fs_lookup (fs (extract_frames env video_path interval_sec start_sec end_sec w)) q"
  shows "gather_frames env f
         = map (\<lambda>(i, frame). b64encode env (jpg_encode env frame))
             (sampled_frames cap interval_sec start_sec end_sec)"
proof -
  let ?S = "sampled_frames cap interval_sec start_sec end_sec"
  let ?w1 = "extract_frames env video_path interval_sec start_sec end_sec w"
  let ?content = "\<lambda>i. jpg_encode env (the (map_of ?S i))"
  have asc: "sorted_wrt (<) (map fst ?S)" by (rule sampled_frames_ascending)
  then have dist: "distinct (map fst ?S)" by (simp add: strict_sorted_iff)
  from extract_frames_opened[OF assms(1), of interval_sec start_sec end_sec]
  obtain w2 where ex: "?w1 = fold (save_frame env) ?S w2" by blast
  have files: "fs_lookup f (frame_path i) = Some (File (?content i))" if "i \<in> set (map fst ?S)" for i
  proof -
    from that obtain frame where m: "(i, frame) \<in> set ?S" by auto
    then have "map_of ?S i = Some frame" using dist by simp
    moreover have "fs_lookup (fs ?w1) (frame_path i) = Some (File (jpg_encode env frame))"
      unfolding ex using dist assms(2) m by (rule fold_save_frame_content)
    ultimately show ?thesis using assms(4) frame_path_inside by simp
  qed
  note l = extract_frames_listing[OF assms(1), of interval_sec start_sec end_sec]
  have "gather_frames env f = map (\<lambda>i. b64encode env (?content i)) (map fst ?S)"
  proof (rule gather_frames_in_index_order)
    show "set (listdir f FRAME_FOLDER) = frame_name ` set (map fst ?S)"
      using l assms(3) by simp
    show "distinct (listdir f FRAME_FOLDER)" using l assms(3) by simp
    show "sorted_wrt (<) (map fst ?S)" by (rule asc)
    show "\<forall>i \<in> set (map fst ?S). 0 \<le> i \<and> i < 10 ^ 7" using assms(2) by simp
    show "\<forall>i \<in> set (map fst ?S). fs_lookup f (frame_path i) = Some (File (?content i))"
      using files by blast
  qed
  also have "\<dots> = map (\<lambda>(i, frame). b64encode env (jpg_encode env frame)) ?S"
  proof -
    have "b64encode env (?content (fst p)) = (case p of (i, frame) \<Rightarrow> b64encode env (jpg_encode env frame))"
      if "p \<in> set ?S" for p
    proof -
      obtain i frame where p: "p = (i, frame)" by (cases p)
      with that have "map_of ?S i = Some frame" using dist by simp
      then show ?thesis by (simp add: p)
    qed
    then show ?thesis by (simp add: o_def)
  qed
  finally show ?thesis .
qed

text \<open>
  What a run on a local source submits. When the video opens and its sampled frames have
  indices below ten million, every request sent to the inference service carries the
  first twelve sampled frames, in ascending index order, each as the encoding of the
  image written for it; a run that fails before the inference stage sends none.
\<close>

lemma video_GPT_submits_first_frames:
  assumes "is_url (urlparse env) video_path = Inr False"
    and "VideoCapture env (fs (ensure_clean_dir FRAME_FOLDER w)) video_path = Some cap"
    and "\<forall>i \<in> fst ` set (sampled_frames cap (1 / 2) start_sec end_sec). 0 \<le> i \<and> i < 10 ^ 7"
  shows "\<exists>new. llm_calls (snd (video_GPT env video_path start_sec end_sec cookie_file cookies w))
                = llm_calls w @ new
           \<and> (\<forall>request \<in> set new.
                 request_images request
                 = take 12 (map (\<lambda>(i, frame). b64encode env (jpg_encode env frame))
                              (sampled_frames cap (1 / 2) start_sec end_sec)))"
proof -
  let ?S = "sampled_frames cap (1 / 2) start_sec end_sec"
  let ?w1 = "extract_frames env video_path (1 / 2) start_sec end_sec w"
  have p: "prepare_video_input env video_path cookie_file cookies w = (Inr (video_path, None), w)"
    using assms(1) by (simp add: prepare_video_input_def)
  have v: "snd (video_GPT env video_path start_sec end_sec cookie_file cookies w)
           = cleanup_paths [None, Some FRAME_FOLDER]
               (snd (video_GPT_body env video_path start_sec end_sec w))"
    by (simp add: video_GPT_def p split: prod.splits)
  have cl: "llm_calls (cleanup_paths ps w') = llm_calls w'" for ps w'
    by (simp add: cleanup_paths_def)
  obtain r w2 where a: "extract_audio_and_transcribe env video_path ?w1 = (r, w2)"
    by (cases "extract_audio_and_transcribe env video_path ?w1")
  have w2_llm: "llm_calls w2 = llm_calls w"
    using extract_audio_llm[of env video_path ?w1] a by (simp add: extract_frames_llm)
  show ?thesis
  proof (cases r)
    case (Inl e)
    then have "llm_calls (snd (video_GPT_body env video_path start_sec end_sec w)) = llm_calls w"
      using a w2_llm by (simp add: video_GPT_body_def Let_def)
    then show ?thesis unfolding v cl by simp
  next
    case (Inr res)
    obtain transcript cues where res: "res = (transcript, cues)" by (cases res)
    have ld: "listdir (fs w2) FRAME_FOLDER = listdir (fs ?w1) FRAME_FOLDER"
      using extract_audio_listdir[of env video_path ?w1] a by simp
    have lk: "\<forall>q. inside FRAME_FOLDER q \<longrightarrow> fs_lookup (fs w2) q = fs_lookup (fs ?w1) q"
    proof (intro allI impI)
      fix q
      assume "inside FRAME_FOLDER q"
      then have "q \<noteq> OUTPUT_AUDIO_PATH" using audio_path_outside by blast
      then show "fs_lookup (fs w2) q = fs_lookup (fs ?w1) q"
        using extract_audio_lookup[of q env video_path ?w1] a by simp
    qed
    have g: "gather_frames env (fs w2)
             = map (\<lambda>(i, frame). b64encode env (jpg_encode env frame)) ?S"
      using assms(2,3) ld lk by (rule gathered_after_sampling)
    have body: "video_GPT_body env video_path start_sec end_sec w
                = analyze_frames_with_responses env PROMPT_VISION transcript
                    (map (\<lambda>(i, frame). b64encode env (jpg_encode env frame)) ?S) cues w2"
      using a Inr res g by (simp add: video_GPT_body_def Let_def)
    from analyze_calls[of env PROMPT_VISION transcript
          "map (\<lambda>(i, frame). b64encode env (jpg_encode env frame)) ?S" cues w2]
    obtain new where new: "llm_calls (snd (video_GPT_body env video_path start_sec end_sec w))
                           = llm_calls w2 @ new"
      and sub: "set new \<subseteq> {ResponsesRequest ''gpt-4.1-mini''
                   (responses_content PROMPT_VISION transcript
                      (map (\<lambda>(i, frame). b64encode env (jpg_encode env frame)) ?S) cues) 300,
                 ChatRequest ''gpt-4o-mini''
                   (chat_messages PROMPT_VISION transcript
                      (map (\<lambda>(i, frame). b64encode env (jpg_encode env frame)) ?S) cues) 300}"
      unfolding body by blast
    have "\<forall>request \<in> set new. request_images request
            = take 12 (map (\<lambda>(i, frame). b64encode env (jpg_encode env frame)) ?S)"
      using sub request_images_responses request_images_chat by blast
    then show ?thesis unfolding v cl new w2_llm by blast
  qed
qed

subsection \<open>Cleanup after a run\<close>

lemma cleanup_targets_gone:
  "fs_lookup (fs (cleanup_paths [temp_dir, Some FRAME_FOLDER] w)) FRAME_FOLDER = None
   \<and> (\<forall>t. temp_dir = Some t \<and> t \<noteq> [] \<longrightarrow>
         fs_lookup (fs (cleanup_paths [temp_dir, Some FRAME_FOLDER] w)) t = None)"
proof (intro conjI allI impI)
  show "fs_lookup (fs (cleanup_paths [temp_dir, Some FRAME_FOLDER] w)) FRAME_FOLDER = None"
    using lookup_cleanup_path_gone[OF frame_folder_shape(1)] by (simp add: cleanup_paths_def)
next
  fix t
  assume a: "temp_dir = Some t \<and> t \<noteq> []"
  then have "fs_lookup (cleanup_path (Some t) (fs w)) t = None"
    by (simp add: lookup_cleanup_path_gone)
  then have "fs_lookup (cleanup_path (Some FRAME_FOLDER) (cleanup_path (Some t) (fs w))) t = None"
    by (rule lookup_cleanup_path_none)
  then show "fs_lookup (fs (cleanup_paths [temp_dir, Some FRAME_FOLDER] w)) t = None"
    using a by (simp add: cleanup_paths_def)
qed

lemma cleanup_after_run:
  assumes "prepare_video_input env video_path cookie_file cookies w = (Inr (local_video_path, temp_dir), w1)"
  shows "fs_lookup (fs (snd (video_GPT env video_path start_sec end_sec cookie_file cookies w))) FRAME_FOLDER = None
         \<and> (\<forall>t. temp_dir = Some t \<and> t \<noteq> [] \<longrightarrow>
               fs_lookup (fs (snd (video_GPT env video_path start_sec end_sec cookie_file cookies w))) t = None)"
proof -
  obtain r w2 where b: "video_GPT_body env local_video_path start_sec end_sec w1 = (r, w2)"
    by (cases "video_GPT_body env local_video_path start_sec end_sec w1")
  have v: "snd (video_GPT env video_path start_sec end_sec cookie_file cookies w)
           = cleanup_paths [temp_dir, Some FRAME_FOLDER] w2"
    by (simp add: video_GPT_def assms b)
  show ?thesis unfolding v by (rule cleanup_targets_gone)
qed

lemma mkdtemp_in_eq:
  "mkdtemp_in env prefix w = (mkdtemp env prefix, w\<lparr>fs := mkdir_if_absent (mkdtemp env prefix) (fs w)\<rparr>)"
  by (simp add: mkdtemp_in_def Let_def)

lemma rmtree_gone:
  "fs_lookup (rmtree f d) d = None \<and> (\<forall>q. inside d q \<longrightarrow> fs_lookup (rmtree f d) q = None)"
  by (simp add: lookup_rmtree)

lemma download_generic_failure_cleans:
  assumes "download_generic_video env url w = (Inl e, w')"
  shows "fs_lookup (fs w') (mkdtemp env ''babyagent_remote_'') = None
         \<and> (\<forall>q. inside (mkdtemp env ''babyagent_remote_'') q \<longrightarrow> fs_lookup (fs w') q = None)"
proof -
  let ?t = "mkdtemp env ''babyagent_remote_''"
  have "\<exists>f. fs w' = rmtree f ?t"
  proof (cases "urlopen env url")
    case (HttpFailed e')
    with assms show ?thesis
      by (auto simp: download_generic_video_def mkdtemp_in_eq)
  next
    case (HttpResponse content_type body copy_error)
    show ?thesis
    proof (cases "infer_filename_from_url env url content_type")
      case (Inl e')
      with assms HttpResponse show ?thesis
        by (auto simp: download_generic_video_def mkdtemp_in_eq)
    next
      case (Inr filename)
      with assms HttpResponse show ?thesis
        by (cases copy_error) (auto simp: download_generic_video_def mkdtemp_in_eq Let_def)
    qed
  qed
  then show ?thesis using rmtree_gone by metis
qed

lemma download_youtube_failure_cleans:
  assumes "download_youtube_video env url cookie_file cookies w = (Inl e, w')" "ytdlp_available env"
  shows "fs_lookup (fs w') (mkdtemp env ''babyagent_youtube_'') = None
         \<and> (\<forall>q. inside (mkdtemp env ''babyagent_youtube_'') q \<longrightarrow> fs_lookup (fs w') q = None)"
proof -
  let ?t = "mkdtemp env ''babyagent_youtube_''"
  have "\<exists>f. fs w' = rmtree f ?t"
    using assms
    by (simp add: download_youtube_video_def mkdtemp_in_eq Let_def split: sum.splits) auto
  then show ?thesis using rmtree_gone by metis
qed

lemma download_youtube_unavailable:
  assumes "\<not> ytdlp_available env"
  shows "snd (download_youtube_video env url cookie_file cookies w) = w"
  using assms by (simp add: download_youtube_video_def)

lemma audio_removed_after_transcript:
  assumes "extract_audio_and_transcribe env video_path w = (Inr (transcript, cues), w')"
    and "VideoFileClip env (fs w) video_path = Inr c" and "clip_audio c = Some track"
  shows "fs_lookup (fs w') OUTPUT_AUDIO_PATH = None"
proof (cases "wav_encode env track")
  case (Inl e)
  with assms show ?thesis by (simp add: extract_audio_and_transcribe_def)
next
  case (Inr wav)
  let ?w = "w\<lparr>fs := write_file (fs w) OUTPUT_AUDIO_PATH wav\<rparr>"
  obtain r w1 where t: "transcribe_audio env OUTPUT_AUDIO_PATH ?w = (r, w1)"
    by (cases "transcribe_audio env OUTPUT_AUDIO_PATH ?w")
  show ?thesis
  proof (cases r)
    case (Inl e)
    with assms Inr t show ?thesis by (simp add: extract_audio_and_transcribe_def)
  next
    case (Inr transcript')
    with assms \<open>wav_encode env track = Inr wav\<close> t
    have "\<exists>w3. w' = w3\<lparr>fs := unlink (fs w3) OUTPUT_AUDIO_PATH\<rparr>"
      by (auto simp: extract_audio_and_transcribe_def Let_def)
    then show ?thesis by (auto simp: lookup_unlink)
  qed
qed

lemma audio_left_after_failure:
  assumes "VideoFileClip env (fs w) video_path = Inr c" and "clip_audio c = Some track"
    and "wav_encode env track = Inr wav"
    and "fst (transcribe_audio env OUTPUT_AUDIO_PATH (w\<lparr>fs := write_file (fs w) OUTPUT_AUDIO_PATH wav\<rparr>)) = Inl e"
  shows "fst (extract_audio_and_transcribe env video_path w) = Inl e
         \<and> fs_lookup (fs (snd (extract_audio_and_transcribe env video_path w))) OUTPUT_AUDIO_PATH
           = Some (File wav)"
proof -
  let ?w = "w\<lparr>fs := write_file (fs w) OUTPUT_AUDIO_PATH wav\<rparr>"
  obtain r w1 where t: "transcribe_audio env OUTPUT_AUDIO_PATH ?w = (r, w1)"
    by (cases "transcribe_audio env OUTPUT_AUDIO_PATH ?w")
  with assms(4) have r: "r = Inl e" by simp
  have "fs w1 = fs ?w" using transcribe_audio_fs[of env OUTPUT_AUDIO_PATH ?w] t by simp
  then have "fs_lookup (fs w1) OUTPUT_AUDIO_PATH = Some (File wav)" by (simp add: lookup_write_file)
  then show ?thesis
    using assms(1-3) t r by (simp add: extract_audio_and_transcribe_def Let_def)
qed


text \<open>
  C1: a local clip with an audio track, and a transcription service that fails for both
  models. The run ends with the service's error; the frame directory is gone, but the
  scratch audio file, which did not exist before the run, is still there: its removal
  comes after the transcription call and is skipped when that call raises.
\<close>

theorem audio_file_left_behind:
  "fst (video_GPT failing_asr_env ''clip.mp4'' 0 None None None demo_world)
     = Inl (ServiceError ''service down'')
   \<and> asr_calls (snd (video_GPT failing_asr_env ''clip.mp4'' 0 None None None demo_world))
     = [Gpt4oTranscribe, Whisper1]
   \<and> fs_lookup (fs demo_world) OUTPUT_AUDIO_PATH = None
   \<and> fs_lookup (fs (snd (video_GPT failing_asr_env ''clip.mp4'' 0 None None None demo_world)))
        OUTPUT_AUDIO_PATH = Some (File ''AUDIO'')
   \<and> fs_lookup (fs (snd (video_GPT failing_asr_env ''clip.mp4'' 0 None None None demo_world)))
        FRAME_FOLDER = None"
proof -
  have run: "video_GPT failing_asr_env ''clip.mp4'' 0 None None None demo_world
             = (Inl (ServiceError ''service down''),
                \<lparr>fs = [(''../data/crying_baby/video_audio.wav'', File ''AUDIO''),
                       (''../data/crying_baby'', Dir), (''../data'', Dir), (''..'', Dir),
                       (''clip.mp4'', File ''SHORT''), (''long.mp4'', File ''LONG''),
                       (''silent.mp4'', File ''SILENT'')],
                 stdout = [''Saved ../data/crying_baby/frames/frame_0000000.jpg'',
                           ''Saved ../data/crying_baby/frames/frame_0000015.jpg'',
                           ''gpt-4o-transcribe failed (service down); falling back to whisper-1''
                           @ ellipsis],
                 asr_calls = [Gpt4oTranscribe, Whisper1],
                 llm_calls = []\<rparr>)"
    by code_simp
  have before: "fs_lookup (fs demo_world) OUTPUT_AUDIO_PATH = None"
    by (simp add: demo_world_def fs_lookup_def OUTPUT_AUDIO_PATH_def)
  show ?thesis
    unfolding run using before by (simp add: fs_lookup_def OUTPUT_AUDIO_PATH_def FRAME_FOLDER_def)
qed

subsection \<open>The input file of a local source\<close>




subsection \<open>Cue detection\<close>

lemma is_upper_iff: "is_upper c \<longleftrightarrow> 65 \<le> (of_char c :: nat) \<and> (of_char c :: nat) \<le> 90"
  by (simp add: is_upper_def less_eq_char_def)

lemma is_lower_iff: "is_lower c \<longleftrightarrow> 97 \<le> (of_char c :: nat) \<and> (of_char c :: nat) \<le> 122"
  by (simp add: is_lower_def less_eq_char_def)

lemma is_digit_iff: "is_digit c \<longleftrightarrow> 48 \<le> (of_char c :: nat) \<and> (of_char c :: nat) \<le> 57"
  by (simp add: is_digit_def less_eq_char_def)

lemma underscore_iff: "c = CHR ''_'' \<longleftrightarrow> (of_char c :: nat) = 95"
proof -
  have "(of_char c :: nat) = of_char (CHR ''_'') \<longleftrightarrow> c = CHR ''_''"
    by (rule of_char_eq_iff)
  then show ?thesis by simp
qed

lemma of_char_lower_char:
  "(of_char (lower_char c) :: nat) = (if is_upper c then of_char c + 32 else of_char c)"
  by (simp add: lower_char_def is_upper_iff)

lemma of_char_upper_char:
  "(of_char (upper_char c) :: nat) = (if is_lower c then of_char c - 32 else of_char c)"
proof (cases "is_lower c")
  case True
  then have "(of_char c :: nat) - 32 < 256" unfolding is_lower_iff by arith
  then show ?thesis using True by (simp add: upper_char_def)
next
  case False
  then show ?thesis by (simp add: upper_char_def)
qed

lemma is_word_char_iff:
  "is_word_char c \<longleftrightarrow>
     (65 \<le> (of_char c :: nat) \<and> (of_char c :: nat) \<le> 90) \<or> (97 \<le> (of_char c :: nat) \<and> (of_char c :: nat) \<le> 122)
     \<or> (48 \<le> (of_char c :: nat) \<and> (of_char c :: nat) \<le> 57) \<or> (of_char c :: nat) = 95"
  by (simp add: is_word_char_def is_upper_iff is_lower_iff is_digit_iff underscore_iff)

lemma is_word_char_lower [simp]: "is_word_char (lower_char c) = is_word_char c"
  unfolding is_word_char_iff of_char_lower_char is_upper_iff by auto

lemma is_word_char_upper [simp]: "is_word_char (upper_char c) = is_word_char c"
  unfolding is_word_char_iff of_char_upper_char is_lower_iff by auto

lemma lower_upper_char [simp]: "lower_char (upper_char c) = lower_char c"
proof -
  have "(of_char (lower_char (upper_char c)) :: nat) = of_char (lower_char c)"
    unfolding of_char_lower_char is_upper_iff of_char_upper_char is_lower_iff by auto
  then show ?thesis by (simp only: of_char_eq_iff)
qed

lemma lower_lower_char [simp]: "lower_char (lower_char c) = lower_char c"
proof -
  have "(of_char (lower_char (lower_char c)) :: nat) = of_char (lower_char c)"
    unfolding of_char_lower_char is_upper_iff by auto
  then show ?thesis by (simp only: of_char_eq_iff)
qed


lemma lower_eq_word_chars:
  "lower xs = lower ys \<Longrightarrow> \<forall>y \<in> set ys. is_word_char y \<Longrightarrow> \<forall>x \<in> set xs. is_word_char x"
proof (induction xs arbitrary: ys)
  case Nil
  then show ?case by simp
next
  case (Cons x xs)
  then obtain y ys' where ys: "ys = y # ys'" by (cases ys) (auto simp: lower_def)
  with Cons.prems have h: "lower_char x = lower_char y" and t: "lower xs = lower ys'"
    by (simp_all add: lower_def)
  have "is_word_char x"
    using is_word_char_lower[of x] is_word_char_lower[of y] h Cons.prems(2) ys by simp
  moreover have "\<forall>x \<in> set xs. is_word_char x"
    using Cons.IH[OF t] Cons.prems(2) ys by simp
  ultimately show ?case by simp
qed

lemma lower_length: "lower xs = lower ys \<Longrightarrow> length xs = length ys"
  unfolding lower_def by (rule map_eq_imp_length_eq)

lemma words_from_split:
  "words_from cur s
   = (if cur @ takeWhile is_word_char s = [] then [] else [cur @ takeWhile is_word_char s])
     @ words_from [] (dropWhile is_word_char s)"
proof (induction s arbitrary: cur)
  case Nil
  then show ?case by simp
next
  case (Cons c cs)
  show ?case
  proof (cases "is_word_char c")
    case True
    then show ?thesis using Cons.IH[of "cur @ [c]"] by simp
  next
    case False
    then show ?thesis by simp
  qed
qed

lemma match_here_empty: "cue \<noteq> [] \<Longrightarrow> \<not> match_here cue prev []"
  by (simp add: match_here_def)

lemma match_here_inside_word: "is_word_char c \<Longrightarrow> \<not> match_here cue True (c # cs)"
  by (simp add: match_here_def boundary_def)

lemma match_here_non_word:
  assumes "cue \<noteq> []" "\<forall>x \<in> set cue. is_word_char x" "\<not> is_word_char c"
  shows "\<not> match_here cue prev (c # cs)"
proof
  assume m: "match_here cue prev (c # cs)"
  then have "lower (take (length cue) (c # cs)) = lower cue" by (simp add: match_here_def)
  then have "\<forall>x \<in> set (take (length cue) (c # cs)). is_word_char x"
    using assms(2) by (rule lower_eq_word_chars)
  moreover have "c \<in> set (take (length cue) (c # cs))"
    using assms(1) by (cases cue) simp_all
  ultimately show False using assms(3) by blast
qed

lemma match_here_word_start:
  assumes "cue \<noteq> []" "\<forall>x \<in> set cue. is_word_char x" "is_word_char c"
  shows "match_here cue False (c # cs) \<longleftrightarrow> lower (takeWhile is_word_char (c # cs)) = lower cue"
proof
  let ?s = "c # cs"
  let ?n = "length cue"
  assume m: "match_here cue False ?s"
  then have len: "?n \<le> length ?s" and eq: "lower (take ?n ?s) = lower cue"
    and b: "boundary (is_word_char (?s ! (?n - 1))) (drop ?n ?s)"
    using assms(1) by (simp_all add: match_here_def)
  have all: "\<forall>x \<in> set (take ?n ?s). is_word_char x"
    using eq assms(2) by (rule lower_eq_word_chars)
  have "?n - 1 < length (take ?n ?s)" using assms(1) len by (cases cue) simp_all
  then have "take ?n ?s ! (?n - 1) \<in> set (take ?n ?s)" by (rule nth_mem)
  moreover have "take ?n ?s ! (?n - 1) = ?s ! (?n - 1)"
  proof (rule nth_take)
    show "?n - 1 < ?n" using assms(1) by (cases cue) simp_all
  qed
  ultimately have "is_word_char (?s ! (?n - 1))" using all by metis
  with b have "drop ?n ?s = [] \<or> \<not> is_word_char (hd (drop ?n ?s))" by (simp add: boundary_def)
  then have "takeWhile is_word_char (drop ?n ?s) = []" by (simp add: takeWhile_eq_Nil_iff)
  moreover have "takeWhile is_word_char (take ?n ?s @ drop ?n ?s)
                 = take ?n ?s @ takeWhile is_word_char (drop ?n ?s)"
    using all by (intro takeWhile_append2) blast
  ultimately have "takeWhile is_word_char ?s = take ?n ?s" by (simp only: append_take_drop_id append_Nil2)
  then show "lower (takeWhile is_word_char ?s) = lower cue" using eq by simp
next
  let ?s = "c # cs"
  let ?n = "length cue"
  let ?tw = "takeWhile is_word_char ?s"
  assume eq: "lower ?tw = lower cue"
  then have n: "length ?tw = ?n" by (rule lower_length)
  have tw: "?tw = take ?n ?s" using takeWhile_eq_take[of is_word_char ?s] n by simp
  have dw: "dropWhile is_word_char ?s = drop ?n ?s" using dropWhile_eq_drop[of is_word_char ?s] n by simp
  have len: "?n \<le> length ?s" using length_takeWhile_le[of is_word_char ?s] n by simp
  have pos: "?n - 1 < length ?tw" using assms(1) n by (cases cue) simp_all
  then have "?tw ! (?n - 1) \<in> set ?tw" by (rule nth_mem)
  then have "is_word_char (?tw ! (?n - 1))" by (meson set_takeWhileD)
  moreover have "?tw ! (?n - 1) = ?s ! (?n - 1)" using pos by (rule takeWhile_nth)
  ultimately have last_w: "is_word_char (?s ! (?n - 1))" by simp
  have "dropWhile is_word_char ?s = [] \<or> \<not> is_word_char (hd (dropWhile is_word_char ?s))"
    using hd_dropWhile[of is_word_char ?s] by blast
  then have b2: "boundary True (drop ?n ?s)" unfolding dw by (auto simp: boundary_def)
  have b1: "boundary False ?s" using assms(3) by (simp add: boundary_def)
  show "match_here cue False ?s"
    unfolding match_here_def using b1 len eq[unfolded tw] b2 last_w assms(1) by simp
qed

lemma search_from_words:
  assumes "cue \<noteq> []" "\<forall>x \<in> set cue. is_word_char x"
  shows "search_from cue prev s
         \<longleftrightarrow> lower cue \<in> set (map lower (words_of (if prev then dropWhile is_word_char s else s)))"
proof (induction s arbitrary: prev)
  case Nil
  then show ?case using assms(1) by (simp add: match_here_empty words_of_def)
next
  case (Cons c cs)
  show ?case
  proof (cases "is_word_char c")
    case False
    have "search_from cue prev (c # cs) = search_from cue False cs"
      using match_here_non_word[OF assms False] False by simp
    also have "\<dots> \<longleftrightarrow> lower cue \<in> set (map lower (words_of cs))"
      using Cons.IH[of False] by simp
    also have "words_of cs = words_of (if prev then dropWhile is_word_char (c # cs) else c # cs)"
      using False by (simp add: words_of_def)
    finally show ?thesis .
  next
    case True
    note w = True
    show ?thesis
    proof (cases prev)
      case True
      have "search_from cue prev (c # cs) = search_from cue True cs"
        using match_here_inside_word[OF w] True w by simp
      also have "\<dots> \<longleftrightarrow> lower cue \<in> set (map lower (words_of (dropWhile is_word_char cs)))"
        using Cons.IH[of True] by simp
      finally show ?thesis using True w by simp
    next
      case False
      have sp: "words_of (c # cs)
                = takeWhile is_word_char (c # cs) # words_of (dropWhile is_word_char cs)"
        using words_from_split[of "[]" "c # cs"] w by (simp add: words_of_def)
      have "search_from cue prev (c # cs)
            \<longleftrightarrow> lower (takeWhile is_word_char (c # cs)) = lower cue \<or> search_from cue True cs"
        using match_here_word_start[OF assms w] False w by simp
      also have "search_from cue True cs
                 \<longleftrightarrow> lower cue \<in> set (map lower (words_of (dropWhile is_word_char cs)))"
        using Cons.IH[of True] by simp
      finally show ?thesis using False sp by auto
    qed
  qed
qed

lemma re_search_word_refines:
  assumes "cue \<noteq> []" "\<forall>x \<in> set cue. is_word_char x"
  shows "re_search_word cue transcript \<longleftrightarrow> occurs_as_word cue transcript"
  using search_from_words[OF assms, of False transcript]
  by (simp add: re_search_word_def occurs_as_word_def)


lemma cues_are_words: "\<forall>cue \<in> set BABY_CRY_CUES. cue \<noteq> [] \<and> (\<forall>x \<in> set cue. is_word_char x)"
  by code_simp

lemma detect_as_words:
  "detect_baby_sounds transcript = filter (\<lambda>cue. occurs_as_word cue transcript) BABY_CRY_CUES"
  unfolding detect_baby_sounds_def
  by (rule filter_cong[OF refl]) (use cues_are_words re_search_word_refines in blast)

lemma words_from_map_upper:
  "words_from (map upper_char cur) (map upper_char s) = map (map upper_char) (words_from cur s)"
proof (induction s arbitrary: cur)
  case Nil
  then show ?case by simp
next
  case (Cons c cs)
  then show ?case using Cons.IH[of "cur @ [c]"] Cons.IH[of "[]"] by simp
qed

lemma words_from_map_lower:
  "words_from (map lower_char cur) (map lower_char s) = map (map lower_char) (words_from cur s)"
proof (induction s arbitrary: cur)
  case Nil
  then show ?case by simp
next
  case (Cons c cs)
  then show ?case using Cons.IH[of "cur @ [c]"] Cons.IH[of "[]"] by simp
qed

lemma lower_upper: "lower (upper s) = lower s"
  by (simp add: lower_def upper_def)

lemma lower_lower: "lower (lower s) = lower s"
  by (simp add: lower_def)

lemma occurs_as_word_upper: "occurs_as_word cue (upper t) = occurs_as_word cue t"
proof -
  have "words_of (map upper_char t) = map (map upper_char) (words_of t)"
    using words_from_map_upper[of "[]" t] by (simp add: words_of_def)
  then show ?thesis by (simp add: occurs_as_word_def o_def lower_def upper_def)
qed

lemma occurs_as_word_lower: "occurs_as_word cue (lower t) = occurs_as_word cue t"
proof -
  have "words_of (map lower_char t) = map (map lower_char) (words_of t)"
    using words_from_map_lower[of "[]" t] by (simp add: words_of_def)
  then show ?thesis by (simp add: occurs_as_word_def o_def lower_def)
qed

lemma words_from_append:
  "\<not> is_word_char c \<Longrightarrow> words_from cur (s @ c # s') = words_from cur s @ words_from [] s'"
  by (induction s arbitrary: cur) simp_all

lemma occurs_as_word_append:
  assumes "\<not> is_word_char c"
  shows "occurs_as_word cue (t @ c # u) \<longleftrightarrow> occurs_as_word cue t \<or> occurs_as_word cue u"
  using words_from_append[OF assms, of "[]" t u] by (auto simp: occurs_as_word_def words_of_def)

lemma words_of_word:
  assumes "x \<noteq> []" "\<forall>c \<in> set x. is_word_char c"
  shows "words_of x = [x]"
proof -
  have tw: "takeWhile is_word_char x = x" using assms(2) by (simp add: takeWhile_eq_all_conv)
  have dw: "dropWhile is_word_char x = []" using assms(2) by simp
  have "words_from [] x = (if [] @ x = [] then [] else [([] @ x)]) @ words_from [] []"
    using words_from_split[of "[]" x] unfolding tw dw .
  then show ?thesis using assms(1) by (simp add: words_of_def)
qed

lemma words_of_join:
  assumes "\<forall>x \<in> set xs. x \<noteq> [] \<and> (\<forall>c \<in> set x. is_word_char c)"
  shows "words_of (join '', '' xs) = xs"
  using assms
proof (induction "'', ''" xs rule: join.induct)
  case 1
  then show ?case by (simp add: words_of_def)
next
  case (2 x)
  then show ?case by (simp add: words_of_word)
next
  case (3 x y ys)
  have comma: "\<not> is_word_char CHR '',''" and space: "\<not> is_word_char CHR '' ''" by code_simp+
  have "words_of (join '', '' (x # y # ys))
        = words_from [] (x @ CHR '','' # (CHR '' '' # join '', '' (y # ys)))"
    by (simp add: words_of_def)
  also have "\<dots> = words_from [] x @ words_from [] (CHR '' '' # join '', '' (y # ys))"
    using comma by (rule words_from_append)
  also have "words_from [] x = [x]" using words_of_word[of x] 3(2) by (simp add: words_of_def)
  also have "words_from [] (CHR '' '' # join '', '' (y # ys)) = words_of (join '', '' (y # ys))"
    using space by (simp add: words_of_def)
  also have "\<dots> = y # ys" using 3 by simp
  finally show ?case by simp
qed

lemma cues_lower_inj: "inj_on lower (set BABY_CRY_CUES)"
  unfolding BABY_CRY_CUES_def by code_simp

lemma detect_own_output:
  "detect_baby_sounds (join '', '' (filter P BABY_CRY_CUES)) = filter P BABY_CRY_CUES"
proof -
  let ?xs = "filter P BABY_CRY_CUES"
  have w: "words_of (join '', '' ?xs) = ?xs"
    using cues_are_words by (intro words_of_join) auto
  have "occurs_as_word cue (join '', '' ?xs) \<longleftrightarrow> P cue" if "cue \<in> set BABY_CRY_CUES" for cue
  proof
    assume "occurs_as_word cue (join '', '' ?xs)"
    then obtain x where "x \<in> set BABY_CRY_CUES" "P x" "lower x = lower cue"
      by (auto simp: occurs_as_word_def w)
    then show "P cue" using cues_lower_inj that by (auto dest: inj_onD)
  next
    assume "P cue"
    then show "occurs_as_word cue (join '', '' ?xs)"
      using that by (simp add: occurs_as_word_def w)
  qed
  then show ?thesis unfolding detect_as_words by (intro filter_cong) simp_all
qed

text \<open>
  C6: cue detection reports each token of the vocabulary at most once, and reports a token
  exactly when the text, cut into maximal runs of word characters, has a run equal to the
  token up to case; so the result is the same for the text in upper or lower case, for the
  text repeated, and for the detector's own output joined into a text. On
  \<open>neh neh HEH\<close> it is \<open>NEH\<close> and \<open>HEH\<close>, once each.
\<close>

theorem detect_baby_sounds_whole_words:
  "distinct (detect_baby_sounds t)
   \<and> detect_baby_sounds t = filter (\<lambda>cue. occurs_as_word cue t) BABY_CRY_CUES
   \<and> detect_baby_sounds (upper t) = detect_baby_sounds t
   \<and> detect_baby_sounds (lower t) = detect_baby_sounds t
   \<and> detect_baby_sounds (t @ '' '' @ t) = detect_baby_sounds t
   \<and> detect_baby_sounds (join '', '' (detect_baby_sounds t)) = detect_baby_sounds t
   \<and> detect_baby_sounds ''neh neh HEH'' = [''NEH'', ''HEH'']"
proof -
  have d: "distinct (detect_baby_sounds t)"
    by (simp add: detect_baby_sounds_def BABY_CRY_CUES_def)
  have sp: "\<not> is_word_char CHR '' ''" by code_simp
  have rep: "detect_baby_sounds (t @ '' '' @ t) = detect_baby_sounds t"
    using occurs_as_word_append[OF sp, of _ t t] by (simp add: detect_as_words)
  have own: "detect_baby_sounds (join '', '' (detect_baby_sounds t)) = detect_baby_sounds t"
    unfolding detect_baby_sounds_def[of t] by (rule detect_own_output)
  have ex: "detect_baby_sounds ''neh neh HEH'' = [''NEH'', ''HEH'']" by code_simp
  show ?thesis
    using d rep own ex
    by (simp add: detect_as_words[of "upper t"] detect_as_words[of "lower t"]
          occurs_as_word_upper occurs_as_word_lower detect_as_words[of t, symmetric])
qed

end
